theory Spec2Isabelle
  imports Main "HOL-Library.Word"
begin

section \<open>Work-efficient scan and stream compaction (stream\_compaction/efficient.cu)\<close>

text \<open>
  A shallow embedding of \<^verbatim>\<open>kernelEfficientScan\<close>, \<^verbatim>\<open>kernelEfficientCompact\<close>,
  \<^verbatim>\<open>scan\<close> and \<^verbatim>\<open>compact\<close>.

  \<^item> A C \<^verbatim>\<open>int\<close> stored in a buffer is a \<open>32 word\<close>: additions wrap around, and
    \<open>sint\<close> reads the value back as a signed number.
  \<^item> A buffer is a list. Every read and write of the kernels is checked against the
    length of the buffer it goes to; an access out of range is the result \<open>None\<close>.
  \<^item> Sizes, loop counters and thread indices (\<open>n\<close>, \<open>N\<close>, \<open>d\<close>, \<open>offset\<close>,
    \<open>index\<close>) are natural numbers; the array indices \<open>a\<close> and \<open>b\<close>, which the
    code computes by subtraction and compares with 0, are integers.
  \<^item> One block of \<open>blockDim\<close> threads runs a kernel. Between two barriers
    (\<^verbatim>\<open>__syncthreads\<close>) the threads \<open>0, ..., blockDim - 1\<close> run one after the other;
    the loop counters are the same in every thread, so the loops are run once for the
    whole block.
  \<^item> A launch \<^verbatim>\<open>kernel<<<1, n>>>(...)\<close> is a run of the kernel by one block of \<open>n\<close>
    threads. The device accepts such a launch up to its thread ceiling; a refused launch
    is not modelled, and neither are the timer and the status checks
    (\<^verbatim>\<open>checkCUDAErrorFn\<close>), which leave the buffers alone.
  \<^item> \<^verbatim>\<open>(int) pow(2, k)\<close> is the power \<open>2 ^ k\<close>, \<^verbatim>\<open>N / 2\<close> and \<^verbatim>\<open>offset / 2\<close> divide
    numbers that are not negative, and \<^verbatim>\<open>d >>= 1\<close> halves \<open>d\<close>.
\<close>

type_synonym val = "32 word"

subsection \<open>Threads of a block\<close>

fun run_threads :: "(nat \<Rightarrow> 's \<Rightarrow> 's option) \<Rightarrow> nat list \<Rightarrow> 's \<Rightarrow> 's option" where
  "run_threads f [] s = Some s"
| "run_threads f (t # ts) s =
     (case f t s of None \<Rightarrow> None | Some s' \<Rightarrow> run_threads f ts s')"

definition block :: "nat \<Rightarrow> nat list" where
  "block blockDim = [0..<blockDim]"

subsection \<open>kernelEfficientScan\<close>

text \<open>\<^verbatim>\<open>g_odata[index] = g_idata[index];\<close>\<close>

definition copy_thread :: "val list \<Rightarrow> nat \<Rightarrow> val list \<Rightarrow> val list option" where
  "copy_thread g_idata index g_odata =
     (if index < length g_idata \<and> index < length g_odata
      then Some (g_odata[index := g_idata ! index]) else None)"

text \<open>
  The two indices of a sweep step, as both sweeps compute them:
  \<^verbatim>\<open>int a = n - 1 - (index * offset); int b = a - offset / 2;\<close>
  The product is the one of the integers. It is the product of the code's 32-bit
  \<^verbatim>\<open>int\<close>s as long as it stays below \<open>2 ^ 31\<close>, which it does at every level the
  kernels reach for \<open>n\<close> up to the thread ceiling.
\<close>

definition sweep_a :: "nat \<Rightarrow> nat \<Rightarrow> nat \<Rightarrow> int" where
  "sweep_a n index offset = int n - 1 - int index * int offset"

definition sweep_b :: "int \<Rightarrow> nat \<Rightarrow> int" where
  "sweep_b a offset = a - int offset div 2"

text \<open>
  The body of one up-sweep level in thread \<open>index\<close>:
  \<^verbatim>\<open>if (index < d) { int a = n - 1 - (index * offset); int b = a - offset / 2;
      if (a >= 0 && b >= 0) { g_odata[a] += g_odata[b]; } }\<close>
\<close>

definition upsweep_thread :: "nat \<Rightarrow> nat \<Rightarrow> nat \<Rightarrow> nat \<Rightarrow> val list \<Rightarrow> val list option" where
  "upsweep_thread n d offset index g_odata =
     (if index < d then
        (let a = sweep_a n index offset;
             b = sweep_b a offset
         in if a \<ge> 0 \<and> b \<ge> 0 then
              (if nat a < length g_odata \<and> nat b < length g_odata
               then Some (g_odata[nat a := g_odata ! nat a + g_odata ! nat b])
               else None)
            else Some g_odata)
      else Some g_odata)"

text \<open>
  \<^verbatim>\<open>for (int d = N / 2; d >= 1; d >>= 1) { __syncthreads(); ...; offset *= 2; }\<close>
  The loop returns the buffer and the value of \<open>offset\<close> it ends with. The doubling is
  the one of the natural numbers; it is the doubling of the code's 32-bit \<^verbatim>\<open>int\<close> as
  long as \<open>2 * N < 2 ^ 31\<close>, which holds for \<open>n\<close> up to the thread ceiling.
\<close>

function upsweep :: "nat list \<Rightarrow> nat \<Rightarrow> nat \<Rightarrow> nat \<Rightarrow> val list \<Rightarrow> (val list \<times> nat) option" where
  "upsweep ts n d offset g_odata =
     (if d \<ge> 1 then
        (case run_threads (upsweep_thread n d offset) ts g_odata of
           None \<Rightarrow> None
         | Some g' \<Rightarrow> upsweep ts n (d div 2) (offset * 2) g')
      else Some (g_odata, offset))"
  by pat_completeness auto
termination
  by (relation "measure (\<lambda>(ts, n, d, offset, g). d)") auto

declare upsweep.simps [simp del]

text \<open>\<^verbatim>\<open>if (index == 0 && n > 0) { g_odata[n - 1] = 0; }\<close>\<close>

definition clear_thread :: "nat \<Rightarrow> nat \<Rightarrow> val list \<Rightarrow> val list option" where
  "clear_thread n index g_odata =
     (if index = 0 \<and> n > 0 then
        (if n - 1 < length g_odata then Some (g_odata[n - 1 := 0]) else None)
      else Some g_odata)"

text \<open>
  The body of one down-sweep level in thread \<open>index\<close>:
  \<^verbatim>\<open>if (index < d) { int a = n - 1 - (index * offset); int b = a - offset / 2;
      if (a >= 0 && b >= 0) { int tmp = g_odata[b]; g_odata[b] = g_odata[a];
                              g_odata[a] += tmp; } }\<close>
\<close>

definition downsweep_thread :: "nat \<Rightarrow> nat \<Rightarrow> nat \<Rightarrow> nat \<Rightarrow> val list \<Rightarrow> val list option" where
  "downsweep_thread n d offset index g_odata =
     (if index < d then
        (let a = sweep_a n index offset;
             b = sweep_b a offset
         in if a \<ge> 0 \<and> b \<ge> 0 then
              (if nat a < length g_odata \<and> nat b < length g_odata
               then (let tmp = g_odata ! nat b;
                         g1 = g_odata[nat b := g_odata ! nat a]
                     in Some (g1[nat a := g1 ! nat a + tmp]))
               else None)
            else Some g_odata)
      else Some g_odata)"

text \<open>
  \<^verbatim>\<open>for (int d = 1; d <= N / 2; d *= 2) { __syncthreads(); ...; offset /= 2; }\<close>
  The counter starts at 1 and is only doubled, so it is positive in every test of the
  loop condition; the model writes \<open>0 < d\<close> into the condition.
\<close>

function downsweep :: "nat list \<Rightarrow> nat \<Rightarrow> nat \<Rightarrow> nat \<Rightarrow> nat \<Rightarrow> val list \<Rightarrow> val list option" where
  "downsweep ts n N d offset g_odata =
     (if 0 < d \<and> d \<le> N div 2 then
        (case run_threads (downsweep_thread n d offset) ts g_odata of
           None \<Rightarrow> None
         | Some g' \<Rightarrow> downsweep ts n N (d * 2) (offset div 2) g')
      else Some g_odata)"
  by pat_completeness auto
termination
  by (relation "measure (\<lambda>(ts, n, N, d, offset, g). Suc (N div 2) - d)") auto

declare downsweep.simps [simp del]

definition kernelEfficientScan :: "nat \<Rightarrow> val list \<Rightarrow> val list \<Rightarrow> nat \<Rightarrow> nat \<Rightarrow> val list option" where
  "kernelEfficientScan blockDim g_odata g_idata n N =
     (case run_threads (copy_thread g_idata) (block blockDim) g_odata of
        None \<Rightarrow> None
      | Some g1 \<Rightarrow>
     (case upsweep (block blockDim) n (N div 2) 2 g1 of
        None \<Rightarrow> None
      | Some (g2, offset) \<Rightarrow>
     (case run_threads (clear_thread n) (block blockDim) g2 of
        None \<Rightarrow> None
      | Some g3 \<Rightarrow> downsweep (block blockDim) n N 1 (offset div 2) g3)))"

subsection \<open>Host side: buffers and scan\<close>

text \<open>
  Modelled from the spec: \<^verbatim>\<open>ilog2ceil\<close> is declared in common.h, which is not among
  the sources. The spec gives \<open>N = 2 ^ ilog2ceil n\<close> as the smallest power of two that
  is at least \<open>n\<close>; the function below counts up to the first such exponent.
\<close>

function ilog2ceil_from :: "nat \<Rightarrow> nat \<Rightarrow> nat" where
  "ilog2ceil_from k n = (if n \<le> 2 ^ k then k else ilog2ceil_from (Suc k) n)"
  by pat_completeness auto
termination
proof (relation "measure (\<lambda>(k, n). n - 2 ^ k)")
  show "wf (measure (\<lambda>(k, n). n - 2 ^ k))" by simp
next
  fix k n :: nat
  assume "\<not> n \<le> 2 ^ k"
  moreover have "(0::nat) < 2 ^ k" by simp
  ultimately have "n - 2 * 2 ^ k < n - (2::nat) ^ k" by linarith
  then show "((Suc k, n), (k, n)) \<in> measure (\<lambda>(k, n). n - 2 ^ k)"
    by simp
qed

declare ilog2ceil_from.simps [simp del]

text \<open>
  Modelled from the spec: \<^verbatim>\<open>ilog2ceil\<close> itself, the exponent of the padded working size
  \<open>N\<close>, the smallest power of two that is at least \<open>n\<close>; common.h is not among the
  sources.
\<close>

definition ilog2ceil :: "nat \<Rightarrow> nat" where
  "ilog2ceil n = ilog2ceil_from 0 n"

text \<open>
  \<^verbatim>\<open>cudaMalloc\<close> gives a buffer of \<open>n\<close> cells whose contents are whatever the device
  memory held; \<open>u i\<close> is the value found in cell \<open>i\<close>.
\<close>

definition cudaMalloc :: "(nat \<Rightarrow> val) \<Rightarrow> nat \<Rightarrow> val list" where
  "cudaMalloc u n = map u [0..<n]"

text \<open>
  \<^verbatim>\<open>cudaMemcpy(dst, src, sizeof(int) * cnt, ...)\<close> overwrites the first \<open>cnt\<close> cells of
  \<open>dst\<close> with those of \<open>src\<close>.
\<close>

definition cudaMemcpy :: "val list \<Rightarrow> val list \<Rightarrow> nat \<Rightarrow> val list option" where
  "cudaMemcpy dst src cnt =
     (if cnt \<le> length dst \<and> cnt \<le> length src
      then Some (take cnt src @ drop cnt dst) else None)"

text \<open>
  \<^verbatim>\<open>scan(n, odata, idata)\<close>: the result is the host array \<open>odata\<close> after the call.
  \<open>dev 0\<close> and \<open>dev 1\<close> are the contents of the two fresh device buffers. The
  launch runs the kernel and \<open>N\<close> is the power \<open>2 ^ k\<close>: this is the code for \<open>n\<close> up
  to the thread ceiling, the range of every statement about \<^verbatim>\<open>scan\<close> below.
\<close>

definition scan :: "(nat \<Rightarrow> nat \<Rightarrow> val) \<Rightarrow> nat \<Rightarrow> val list \<Rightarrow> val list \<Rightarrow> val list option" where
  "scan dev n odata idata =
     (let k = ilog2ceil n;
          N = 2 ^ k
      in case cudaMemcpy (cudaMalloc (dev 0) n) idata n of
           None \<Rightarrow> None
         | Some g_idata \<Rightarrow>
        (case kernelEfficientScan n (cudaMalloc (dev 1) n) g_idata n N of
           None \<Rightarrow> None
         | Some g_odata \<Rightarrow> cudaMemcpy odata g_odata n))"

subsection \<open>Host side: compact\<close>

text \<open>
  Modelled from the spec: \<^verbatim>\<open>Common::kernMapToBoolean\<close> is defined in common.cu, which
  is not among the sources. The spec (MapToBoolean) gives \<open>mask[i] = 1\<close> if
  \<open>input[i] \<noteq> 0\<close> and \<open>0\<close> otherwise, each element on its own.
\<close>

definition mapToBoolean_thread :: "nat \<Rightarrow> val list \<Rightarrow> nat \<Rightarrow> val list \<Rightarrow> val list option" where
  "mapToBoolean_thread n idata index bools =
     (if index < length idata \<and> index < length bools
      then Some (bools[index := (if idata ! index \<noteq> 0 then 1 else 0)]) else None)"

text \<open>
  Modelled from the spec: the kernel \<^verbatim>\<open>kernMapToBoolean\<close> (common.cu, not among the
  sources), the mask step above run by every thread of the block.
\<close>

definition kernMapToBoolean :: "nat \<Rightarrow> nat \<Rightarrow> val list \<Rightarrow> val list \<Rightarrow> val list option" where
  "kernMapToBoolean blockDim n bools idata =
     run_threads (mapToBoolean_thread n idata) (block blockDim) bools"

text \<open>
  Modelled from the spec: \<^verbatim>\<open>Common::kernScatter\<close> is defined in common.cu, which is not
  among the sources. The spec (Scatter) says: for each \<open>i\<close> with \<open>mask[i] = 1\<close>, write
  \<open>input[i]\<close> to \<open>output[scannedMask[i]]\<close>. The destination is a C \<^verbatim>\<open>int\<close>, read
  with \<open>sint\<close>.
\<close>

definition scatter_thread ::
  "nat \<Rightarrow> val list \<Rightarrow> val list \<Rightarrow> val list \<Rightarrow> nat \<Rightarrow> val list \<Rightarrow> val list option" where
  "scatter_thread n idata bools indices index odata =
     (if index < length bools then
        (if bools ! index = 1 then
           (if index < length indices \<and> index < length idata then
              (let idx = sint (indices ! index)
               in if 0 \<le> idx \<and> nat idx < length odata
                  then Some (odata[nat idx := idata ! index]) else None)
            else None)
         else Some odata)
      else None)"

text \<open>
  Modelled from the spec: the kernel \<^verbatim>\<open>kernScatter\<close> (common.cu, not among the sources),
  the scatter step above run by every thread of the block.
\<close>

definition kernScatter ::
  "nat \<Rightarrow> nat \<Rightarrow> val list \<Rightarrow> val list \<Rightarrow> val list \<Rightarrow> val list \<Rightarrow> val list option" where
  "kernScatter blockDim n odata idata bools indices =
     run_threads (scatter_thread n idata bools indices) (block blockDim) odata"

text \<open>
  \<^verbatim>\<open>compact(n, odata, idata)\<close>: the result is the host array \<open>odata\<close> after the call,
  with the returned \<open>count\<close>. \<open>dev 0\<close>, ..., \<open>dev 3\<close> are the contents of the fresh
  device buffers \<open>g_idata\<close>, \<open>g_odata\<close>, \<open>g_bdata\<close> and \<open>g_sdata\<close>. The two
  one-element copies read cell \<open>n - 1\<close> of \<open>g_bdata\<close> and of \<open>g_sdata\<close>; the last
  copy moves \<open>count\<close> elements, and a negative \<open>count\<close> is a size out of range.
  The three launches run their kernels and \<open>N\<close> is the power \<open>2 ^ k\<close>: this is the
  code for \<open>n\<close> from 1 up to the thread ceiling, the range of every statement about
  \<^verbatim>\<open>compact\<close> below.
\<close>

definition compact ::
  "(nat \<Rightarrow> nat \<Rightarrow> val) \<Rightarrow> nat \<Rightarrow> val list \<Rightarrow> val list \<Rightarrow> (val list \<times> int) option" where
  "compact dev n odata idata =
     (let k = ilog2ceil n;
          N = 2 ^ k
      in case cudaMemcpy (cudaMalloc (dev 0) n) idata n of
           None \<Rightarrow> None
         | Some g_idata \<Rightarrow>
        (case kernMapToBoolean n n (cudaMalloc (dev 2) n) g_idata of
           None \<Rightarrow> None
         | Some g_bdata \<Rightarrow>
        (case kernelEfficientScan n (cudaMalloc (dev 3) n) g_bdata n N of
           None \<Rightarrow> None
         | Some g_sdata \<Rightarrow>
        (case kernScatter n n (cudaMalloc (dev 1) n) g_idata g_bdata g_sdata of
           None \<Rightarrow> None
         | Some g_odata \<Rightarrow>
        (if 1 \<le> n \<and> n - 1 < length g_bdata \<and> n - 1 < length g_sdata then
           (let c1 = g_bdata ! (n - 1);
                c2 = g_sdata ! (n - 1);
                count = sint (c1 + c2)
            in if 0 \<le> count then
                 (case cudaMemcpy odata g_odata (nat count) of
                    None \<Rightarrow> None
                  | Some odata' \<Rightarrow> Some (odata', count))
               else None)
         else None)))))"

text \<open>
  Modelled from the spec: the largest number of threads of one block, which the spec
  calls the single-group thread ceiling and puts on the order of 1024.
\<close>

definition max_threads :: nat where
  "max_threads = 1024"

subsection \<open>kernelEfficientCompact\<close>

text \<open>
  The fused kernel works on four buffers at once. \<^verbatim>\<open>compact\<close> does not launch it (the
  call is commented out), but it is part of the file.
\<close>

record bufs =
  c_odata :: "val list"
  c_idata :: "val list"
  c_sdata :: "val list"
  c_bdata :: "val list"

text \<open>
  \<^verbatim>\<open>if (g_idata[index] == 0) { g_bdata[index] = 0; } else { g_bdata[index] = 1; }\<close>
\<close>

definition c_flag_thread :: "nat \<Rightarrow> bufs \<Rightarrow> bufs option" where
  "c_flag_thread index st =
     (if index < length (c_idata st) \<and> index < length (c_bdata st) then
        (if c_idata st ! index = 0
         then Some (st\<lparr>c_bdata := (c_bdata st)[index := 0]\<rparr>)
         else Some (st\<lparr>c_bdata := (c_bdata st)[index := 1]\<rparr>))
      else None)"

text \<open>\<^verbatim>\<open>g_sdata[index] = g_bdata[index];\<close>\<close>

definition c_copy_thread :: "nat \<Rightarrow> bufs \<Rightarrow> bufs option" where
  "c_copy_thread index st =
     (if index < length (c_bdata st) \<and> index < length (c_sdata st)
      then Some (st\<lparr>c_sdata := (c_sdata st)[index := c_bdata st ! index]\<rparr>) else None)"

definition c_upsweep_thread :: "nat \<Rightarrow> nat \<Rightarrow> nat \<Rightarrow> nat \<Rightarrow> bufs \<Rightarrow> bufs option" where
  "c_upsweep_thread n d offset index st =
     (if index < d then
        (let a = sweep_a n index offset;
             b = sweep_b a offset
         in if a \<ge> 0 \<and> b \<ge> 0 then
              (if nat a < length (c_sdata st) \<and> nat b < length (c_sdata st)
               then Some (st\<lparr>c_sdata :=
                      (c_sdata st)[nat a := c_sdata st ! nat a + c_sdata st ! nat b]\<rparr>)
               else None)
            else Some st)
      else Some st)"

function c_upsweep :: "nat list \<Rightarrow> nat \<Rightarrow> nat \<Rightarrow> nat \<Rightarrow> bufs \<Rightarrow> (bufs \<times> nat) option" where
  "c_upsweep ts n d offset st =
     (if d \<ge> 1 then
        (case run_threads (c_upsweep_thread n d offset) ts st of
           None \<Rightarrow> None
         | Some st' \<Rightarrow> c_upsweep ts n (d div 2) (offset * 2) st')
      else Some (st, offset))"
  by pat_completeness auto
termination
  by (relation "measure (\<lambda>(ts, n, d, offset, st). d)") auto

declare c_upsweep.simps [simp del]

text \<open>\<^verbatim>\<open>if (index == 0 && n > 0) { g_sdata[n - 1] = 0; }\<close>\<close>

definition c_clear_thread :: "nat \<Rightarrow> nat \<Rightarrow> bufs \<Rightarrow> bufs option" where
  "c_clear_thread n index st =
     (if index = 0 \<and> n > 0 then
        (if n - 1 < length (c_sdata st)
         then Some (st\<lparr>c_sdata := (c_sdata st)[n - 1 := 0]\<rparr>) else None)
      else Some st)"

definition c_downsweep_thread :: "nat \<Rightarrow> nat \<Rightarrow> nat \<Rightarrow> nat \<Rightarrow> bufs \<Rightarrow> bufs option" where
  "c_downsweep_thread n d offset index st =
     (if index < d then
        (let a = sweep_a n index offset;
             b = sweep_b a offset
         in if a \<ge> 0 \<and> b \<ge> 0 then
              (if nat a < length (c_sdata st) \<and> nat b < length (c_sdata st)
               then (let tmp = c_sdata st ! nat b;
                         s1 = (c_sdata st)[nat b := c_sdata st ! nat a]
                     in Some (st\<lparr>c_sdata := s1[nat a := s1 ! nat a + tmp]\<rparr>))
               else None)
            else Some st)
      else Some st)"

function c_downsweep :: "nat list \<Rightarrow> nat \<Rightarrow> nat \<Rightarrow> nat \<Rightarrow> nat \<Rightarrow> bufs \<Rightarrow> bufs option" where
  "c_downsweep ts n N d offset st =
     (if 0 < d \<and> d \<le> N div 2 then
        (case run_threads (c_downsweep_thread n d offset) ts st of
           None \<Rightarrow> None
         | Some st' \<Rightarrow> c_downsweep ts n N (d * 2) (offset div 2) st')
      else Some st)"
  by pat_completeness auto
termination
  by (relation "measure (\<lambda>(ts, n, N, d, offset, st). Suc (N div 2) - d)") auto

declare c_downsweep.simps [simp del]

text \<open>
  \<^verbatim>\<open>if (g_bdata[index] == 1) { int idx = g_sdata[index]; g_odata[idx] = g_idata[index]; }\<close>
\<close>

definition c_scatter_thread :: "nat \<Rightarrow> bufs \<Rightarrow> bufs option" where
  "c_scatter_thread index st =
     (if index < length (c_bdata st) then
        (if c_bdata st ! index = 1 then
           (if index < length (c_sdata st) \<and> index < length (c_idata st) then
              (let idx = sint (c_sdata st ! index)
               in if 0 \<le> idx \<and> nat idx < length (c_odata st)
                  then Some (st\<lparr>c_odata := (c_odata st)[nat idx := c_idata st ! index]\<rparr>)
                  else None)
            else None)
         else Some st)
      else None)"

definition kernelEfficientCompact :: "nat \<Rightarrow> bufs \<Rightarrow> nat \<Rightarrow> nat \<Rightarrow> bufs option" where
  "kernelEfficientCompact blockDim st n N =
     (case run_threads c_flag_thread (block blockDim) st of
        None \<Rightarrow> None
      | Some st1 \<Rightarrow>
     (case run_threads c_copy_thread (block blockDim) st1 of
        None \<Rightarrow> None
      | Some st2 \<Rightarrow>
     (case c_upsweep (block blockDim) n (N div 2) 2 st2 of
        None \<Rightarrow> None
      | Some (st3, offset) \<Rightarrow>
     (case run_threads (c_clear_thread n) (block blockDim) st3 of
        None \<Rightarrow> None
      | Some st4 \<Rightarrow>
     (case c_downsweep (block blockDim) n N 1 (offset div 2) st4 of
        None \<Rightarrow> None
      | Some st5 \<Rightarrow> run_threads c_scatter_thread (block blockDim) st5)))))"

section \<open>Notions used in the proofs\<close>

text \<open>
  The definitions of this section are not part of the program. \<open>up_step\<close> and
  \<open>down_step\<close> are the sweep bodies on a buffer of length \<open>n\<close> with the half
  step \<open>h = offset / 2\<close>, written with natural numbers; \<open>act\<close> and \<open>actb\<close>
  say that a position is the \<open>a\<close>, respectively the \<open>b\<close>, of a thread that passes
  the guard; \<open>seg xs lo hi\<close> is the sum of \<open>xs[lo..hi)\<close>; \<open>wd l r\<close> is the
  largest power of two up to \<open>2 ^ l\<close> that divides \<open>r\<close>; \<open>up_inv\<close> and
  \<open>down_inv\<close> are the loop invariants of the two sweeps, over the distance
  \<open>n - 1 - p\<close> of a position from the right end; \<open>mask\<close> and \<open>kept\<close> are the
  0/1 mask and the subsequence of non-zero elements.
\<close>

text \<open>
  \<open>upsweep_levels\<close> and \<open>downsweep_levels\<close> list the pairs \<open>(d, offset)\<close> with which
  the two loops run their bodies, by the recursion of the loop headers; \<open>run_levels\<close>
  runs a body over such a list, one level after the other.
\<close>

function upsweep_levels :: "nat \<Rightarrow> nat \<Rightarrow> (nat \<times> nat) list" where
  "upsweep_levels d offset =
     (if d \<ge> 1 then (d, offset) # upsweep_levels (d div 2) (offset * 2) else [])"
  by pat_completeness auto
termination
  by (relation "measure (\<lambda>(d, offset). d)") auto

declare upsweep_levels.simps [simp del]

function downsweep_levels :: "nat \<Rightarrow> nat \<Rightarrow> nat \<Rightarrow> (nat \<times> nat) list" where
  "downsweep_levels N d offset =
     (if 0 < d \<and> d \<le> N div 2
      then (d, offset) # downsweep_levels N (d * 2) (offset div 2) else [])"
  by pat_completeness auto
termination
  by (relation "measure (\<lambda>(N, d, offset). Suc (N div 2) - d)") auto

declare downsweep_levels.simps [simp del]

fun run_levels ::
  "(nat \<Rightarrow> nat \<Rightarrow> nat \<Rightarrow> val list \<Rightarrow> val list option) \<Rightarrow> nat list \<Rightarrow> (nat \<times> nat) list \<Rightarrow>
   val list \<Rightarrow> val list option" where
  "run_levels body ts [] g = Some g"
| "run_levels body ts ((d, offset) # ls) g =
     (case run_threads (body d offset) ts g of
        None \<Rightarrow> None
      | Some g' \<Rightarrow> run_levels body ts ls g')"

definition up_step :: "nat \<Rightarrow> nat \<Rightarrow> nat \<Rightarrow> nat \<Rightarrow> val list \<Rightarrow> val list" where
  "up_step n d h t g =
     (if t < d \<and> t * (2 * h) + h < n
      then g[n - 1 - t * (2 * h) := g ! (n - 1 - t * (2 * h)) + g ! (n - 1 - t * (2 * h) - h)]
      else g)"

definition down_step :: "nat \<Rightarrow> nat \<Rightarrow> nat \<Rightarrow> nat \<Rightarrow> val list \<Rightarrow> val list" where
  "down_step n d h t g =
     (if t < d \<and> t * (2 * h) + h < n
      then g[n - 1 - t * (2 * h) - h := g ! (n - 1 - t * (2 * h)),
             n - 1 - t * (2 * h) := g ! (n - 1 - t * (2 * h)) + g ! (n - 1 - t * (2 * h) - h)]
      else g)"

definition act :: "nat \<Rightarrow> nat \<Rightarrow> nat \<Rightarrow> nat \<Rightarrow> nat \<Rightarrow> bool" where
  "act n d h m p \<longleftrightarrow> (\<exists>t<m. t < d \<and> p + t * (2 * h) + 1 = n) \<and> h \<le> p"

definition actb :: "nat \<Rightarrow> nat \<Rightarrow> nat \<Rightarrow> nat \<Rightarrow> nat \<Rightarrow> bool" where
  "actb n d h m p \<longleftrightarrow> (\<exists>t<m. t < d \<and> p + h + t * (2 * h) + 1 = n)"

definition seg :: "val list \<Rightarrow> nat \<Rightarrow> nat \<Rightarrow> val" where
  "seg xs lo hi = (\<Sum>i = lo..<hi. xs ! i)"

fun wd :: "nat \<Rightarrow> nat \<Rightarrow> nat" where
  "wd 0 r = 1"
| "wd (Suc l) r = (if 2 ^ Suc l dvd r then 2 ^ Suc l else wd l r)"

definition up_inv :: "val list \<Rightarrow> nat \<Rightarrow> val list \<Rightarrow> bool" where
  "up_inv xs l g \<longleftrightarrow>
     length g = length xs \<and>
     (\<forall>p<length xs. g ! p = seg xs (p + 1 - wd l (length xs - 1 - p)) (p + 1))"

definition down_inv :: "val list \<Rightarrow> nat \<Rightarrow> val list \<Rightarrow> bool" where
  "down_inv xs j g \<longleftrightarrow>
     length g = length xs \<and>
     (\<forall>p<length xs. g ! p =
        (if 2 ^ j dvd (length xs - 1 - p) then seg xs 0 (p + 1 - 2 ^ j)
         else seg xs (p + 1 - wd j (length xs - 1 - p)) (p + 1)))"

definition mask :: "val list \<Rightarrow> val list" where
  "mask xs = map (\<lambda>x. if x \<noteq> 0 then 1 else 0) xs"

definition kept :: "val list \<Rightarrow> val list" where
  "kept xs = filter (\<lambda>x. x \<noteq> 0) xs"

section \<open>Lemmas\<close>

subsection \<open>Running the threads of a block\<close>

lemma run_threads_append:
  "run_threads f (xs @ ys) s =
     (case run_threads f xs s of None \<Rightarrow> None | Some s' \<Rightarrow> run_threads f ys s')"
  by (induction xs arbitrary: s) (auto split: option.splits)

lemma run_threads_fold:
  assumes "\<And>t s. P s \<Longrightarrow> f t s = Some (f' t s) \<and> P (f' t s)" and "P s"
  shows "run_threads f ts s = Some (fold f' ts s) \<and> P (fold f' ts s)"
  using assms(2)
proof (induction ts arbitrary: s)
  case Nil
  then show ?case by simp
next
  case (Cons t ts)
  from assms(1)[OF Cons.prems] have "f t s = Some (f' t s)" "P (f' t s)" by auto
  with Cons.IH[of "f' t s"] show ?case by simp
qed

subsection \<open>The sweep bodies on natural numbers\<close>

lemma sweep_active:
  assumes "t * (2 * h) + h < n"
  shows "sweep_a n t (2 * h) = int (n - 1 - t * (2 * h))"
    and "sweep_b (sweep_a n t (2 * h)) (2 * h) = int (n - 1 - t * (2 * h) - h)"
proof -
  define T where "T = t * (2 * h)"
  have T: "int t * int (2 * h) = int T" by (simp add: T_def)
  from assms have "T + h < n" by (simp add: T_def)
  then show "sweep_a n t (2 * h) = int (n - 1 - t * (2 * h))"
    and "sweep_b (sweep_a n t (2 * h)) (2 * h) = int (n - 1 - t * (2 * h) - h)"
    unfolding sweep_a_def sweep_b_def T T_def[symmetric] by auto
qed

lemma sweep_inactive:
  assumes "\<not> t * (2 * h) + h < n"
  shows "sweep_b (sweep_a n t (2 * h)) (2 * h) < 0"
proof -
  define T where "T = t * (2 * h)"
  have T: "int t * int (2 * h) = int T" by (simp add: T_def)
  from assms have "\<not> T + h < n" by (simp add: T_def)
  then show ?thesis
    unfolding sweep_a_def sweep_b_def T by auto
qed

lemma upsweep_thread_pure:
  assumes "length g = n" "0 < h"
  shows "upsweep_thread n d (2 * h) t g = Some (up_step n d h t g)"
proof (cases "t < d \<and> t * (2 * h) + h < n")
  case True
  define A where "A = n - 1 - t * (2 * h)"
  define B where "B = n - 1 - t * (2 * h) - h"
  have ab: "sweep_a n t (2 * h) = int A" "sweep_b (int A) (2 * h) = int B"
    using sweep_active[of t h n] True by (simp_all add: A_def B_def)
  have "A < n" "B < n" using True by (simp_all add: A_def B_def)
  then have "upsweep_thread n d (2 * h) t g = Some (g[A := g ! A + g ! B])"
    using True assms by (simp add: upsweep_thread_def ab)
  then show ?thesis
    using True by (simp add: up_step_def A_def B_def)
next
  case False
  then show ?thesis
    using sweep_inactive[of t h n]
    by (auto simp: upsweep_thread_def up_step_def Let_def)
qed

lemma length_up_step: "length (up_step n d h t g) = length g"
  by (simp add: up_step_def)

lemma length_down_step: "length (down_step n d h t g) = length g"
  by (simp add: down_step_def)

lemma downsweep_thread_pure:
  assumes "length g = n" "0 < h"
  shows "downsweep_thread n d (2 * h) t g = Some (down_step n d h t g)"
proof (cases "t < d \<and> t * (2 * h) + h < n")
  case True
  define A where "A = n - 1 - t * (2 * h)"
  define B where "B = n - 1 - t * (2 * h) - h"
  have ab: "sweep_a n t (2 * h) = int A" "sweep_b (int A) (2 * h) = int B"
    using sweep_active[of t h n] True by (simp_all add: A_def B_def)
  have "A < n" "B < n" "B \<noteq> A" using True assms by (auto simp: A_def B_def)
  then have "downsweep_thread n d (2 * h) t g = Some (g[B := g ! A, A := g ! A + g ! B])"
    using True assms by (simp add: downsweep_thread_def ab)
  then show ?thesis
    using True by (simp add: down_step_def A_def B_def)
next
  case False
  then show ?thesis
    using sweep_inactive[of t h n]
    by (auto simp: downsweep_thread_def down_step_def Let_def)
qed

subsection \<open>One level of a sweep, position by position\<close>

lemma odd_multiple: "0 < h \<Longrightarrow> t * (2 * h) \<noteq> m * (2 * h) + (h::nat)"
proof
  assume h: "0 < h" and e: "t * (2 * h) = m * (2 * h) + h"
  have "(m * (2 * h) + h) mod (2 * h) = h" using h by simp
  moreover have "(t * (2 * h)) mod (2 * h) = 0" by simp
  ultimately show False using e h by simp
qed

lemma act_Suc:
  assumes "0 < h"
  shows "act n d h (Suc m) p \<longleftrightarrow>
         act n d h m p \<or> (m < d \<and> m * (2 * h) + h < n \<and> p = n - 1 - m * (2 * h))"
  unfolding act_def using assms
  by (auto simp: less_Suc_eq)

lemma actb_Suc:
  assumes "0 < h"
  shows "actb n d h (Suc m) p \<longleftrightarrow>
         actb n d h m p \<or> (m < d \<and> m * (2 * h) + h < n \<and> p = n - 1 - m * (2 * h) - h)"
  unfolding actb_def using assms
  by (auto simp: less_Suc_eq)

lemma act_fresh:
  assumes "0 < h" "m * (2 * h) + h < n"
  shows "\<not> act n d h m (n - 1 - m * (2 * h))"
    and "\<not> act n d h m (n - 1 - m * (2 * h) - h)"
    and "\<not> actb n d h m (n - 1 - m * (2 * h))"
    and "\<not> actb n d h m (n - 1 - m * (2 * h) - h)"
proof -
  show "\<not> act n d h m (n - 1 - m * (2 * h))"
  proof
    assume "act n d h m (n - 1 - m * (2 * h))"
    then obtain t where "t < m" "n - 1 - m * (2 * h) + t * (2 * h) + 1 = n"
      by (auto simp: act_def)
    then have "t * (2 * h) = m * (2 * h)" using assms by arith
    with \<open>t < m\<close> assms show False by simp
  qed
  show "\<not> act n d h m (n - 1 - m * (2 * h) - h)"
  proof
    assume "act n d h m (n - 1 - m * (2 * h) - h)"
    then obtain t where "t < m" "n - 1 - m * (2 * h) - h + t * (2 * h) + 1 = n"
      by (auto simp: act_def)
    then have "t * (2 * h) = m * (2 * h) + h" using assms by arith
    with odd_multiple[OF assms(1)] show False by blast
  qed
  show "\<not> actb n d h m (n - 1 - m * (2 * h))"
  proof
    assume "actb n d h m (n - 1 - m * (2 * h))"
    then obtain t where "t < m" "n - 1 - m * (2 * h) + h + t * (2 * h) + 1 = n"
      by (auto simp: actb_def)
    then have "m * (2 * h) = t * (2 * h) + h" using assms by arith
    with odd_multiple[OF assms(1)] show False by blast
  qed
  show "\<not> actb n d h m (n - 1 - m * (2 * h) - h)"
  proof
    assume "actb n d h m (n - 1 - m * (2 * h) - h)"
    then obtain t where "t < m" "n - 1 - m * (2 * h) - h + h + t * (2 * h) + 1 = n"
      by (auto simp: actb_def)
    then have "t * (2 * h) = m * (2 * h)" using assms by arith
    with \<open>t < m\<close> assms show False by simp
  qed
qed

lemma fold_up_step:
  assumes "length g = n" "0 < h"
  shows "length (fold (up_step n d h) [0..<m] g) = n \<and>
         (\<forall>p<n. fold (up_step n d h) [0..<m] g ! p =
                 (if act n d h m p then g ! p + g ! (p - h) else g ! p))"
proof (induction m)
  case 0
  show ?case using assms by (simp add: act_def)
next
  case (Suc m)
  define G where "G = fold (up_step n d h) [0..<m] g"
  from Suc have len: "length G = n"
    and G: "\<And>p. p < n \<Longrightarrow> G ! p = (if act n d h m p then g ! p + g ! (p - h) else g ! p)"
    by (simp_all add: G_def)
  have step: "fold (up_step n d h) [0..<Suc m] g = up_step n d h m G"
    by (simp add: G_def)
  show ?case
  proof (cases "m < d \<and> m * (2 * h) + h < n")
    case True
    define A where "A = n - 1 - m * (2 * h)"
    from True have c: "m * (2 * h) + h < n" by simp
    have An: "A < n" "A - h < n" "h \<le> A" using c unfolding A_def by arith+
    have GA: "G ! A = g ! A" "G ! (A - h) = g ! (A - h)"
      using G[of A] G[of "A - h"] An act_fresh[of h m n d] assms True
      by (simp_all add: A_def)
    have up: "up_step n d h m G = G[A := g ! A + g ! (A - h)]"
      using True GA by (simp add: up_step_def A_def)
    have actA: "\<And>p. act n d h (Suc m) p \<longleftrightarrow> act n d h m p \<or> p = A"
      using True assms by (simp add: act_Suc A_def)
    show ?thesis
      unfolding step up using len An G
      by (auto simp: actA nth_list_update)
  next
    case False
    then have up: "up_step n d h m G = G" by (auto simp: up_step_def)
    have actA: "\<And>p. act n d h (Suc m) p \<longleftrightarrow> act n d h m p"
      using False assms by (auto simp: act_Suc)
    show ?thesis
      unfolding step up using len G by (simp add: actA)
  qed
qed

lemma fold_down_step:
  assumes "length g = n" "0 < h"
  shows "length (fold (down_step n d h) [0..<m] g) = n \<and>
         (\<forall>p<n. fold (down_step n d h) [0..<m] g ! p =
                 (if act n d h m p then g ! p + g ! (p - h)
                  else if actb n d h m p then g ! (p + h) else g ! p))"
proof (induction m)
  case 0
  show ?case using assms by (simp add: act_def actb_def)
next
  case (Suc m)
  define G where "G = fold (down_step n d h) [0..<m] g"
  from Suc have len: "length G = n"
    and G: "\<And>p. p < n \<Longrightarrow> G ! p = (if act n d h m p then g ! p + g ! (p - h)
                  else if actb n d h m p then g ! (p + h) else g ! p)"
    by (simp_all add: G_def)
  have step: "fold (down_step n d h) [0..<Suc m] g = down_step n d h m G"
    by (simp add: G_def)
  show ?case
  proof (cases "m < d \<and> m * (2 * h) + h < n")
    case True
    define A where "A = n - 1 - m * (2 * h)"
    from True have c: "m * (2 * h) + h < n" by simp
    have An: "A < n" "A - h < n" "h \<le> A" "A - h \<noteq> A" using c assms(2) unfolding A_def by arith+
    have GA: "G ! A = g ! A" "G ! (A - h) = g ! (A - h)"
      using G[of A] G[of "A - h"] An act_fresh[of h m n d] assms True
      by (simp_all add: A_def)
    have up: "down_step n d h m G = G[A - h := g ! A, A := g ! A + g ! (A - h)]"
      using True GA by (simp add: down_step_def A_def)
    have actA: "\<And>p. act n d h (Suc m) p \<longleftrightarrow> act n d h m p \<or> p = A"
      using True assms by (simp add: act_Suc A_def)
    have actB: "\<And>p. actb n d h (Suc m) p \<longleftrightarrow> actb n d h m p \<or> p = A - h"
      using True assms by (simp add: actb_Suc A_def)
    have nA: "\<not> act n d h m A" "\<not> actb n d h m A" "\<not> act n d h m (A - h)" "\<not> actb n d h m (A - h)"
      using act_fresh[of h m n d] assms True by (simp_all add: A_def)
    show ?thesis
      unfolding step up using len An G nA
      by (auto simp: actA actB nth_list_update)
  next
    case False
    then have up: "down_step n d h m G = G" by (auto simp: down_step_def)
    have actA: "\<And>p. act n d h (Suc m) p \<longleftrightarrow> act n d h m p"
      "\<And>p. actb n d h (Suc m) p \<longleftrightarrow> actb n d h m p"
      using False assms by (auto simp: act_Suc actb_Suc)
    show ?thesis
      unfolding step up using len G by (simp add: actA)
  qed
qed

subsection \<open>The threads of one level do not interfere\<close>

text \<open>
  Two different threads that pass the guard at the same level touch four different cells,
  so their steps commute: the order in which the model runs the threads between two
  barriers does not matter.
\<close>

lemma sweep_positions_distinct:
  assumes "0 < (h::nat)" "t \<noteq> t'" "t * (2 * h) + h < n" "t' * (2 * h) + h < n"
  shows "n - 1 - t * (2 * h) \<noteq> n - 1 - t' * (2 * h)"
    and "n - 1 - t * (2 * h) \<noteq> n - 1 - t' * (2 * h) - h"
    and "n - 1 - t * (2 * h) - h \<noteq> n - 1 - t' * (2 * h) - h"
proof -
  have ne: "t * (2 * h) \<noteq> t' * (2 * h)" using assms(1,2) by simp
  have o: "t * (2 * h) \<noteq> t' * (2 * h) + h" using odd_multiple[OF assms(1)] .
  show "n - 1 - t * (2 * h) \<noteq> n - 1 - t' * (2 * h)" using ne assms(3,4) by arith
  show "n - 1 - t * (2 * h) \<noteq> n - 1 - t' * (2 * h) - h" using o assms(3,4) by arith
  show "n - 1 - t * (2 * h) - h \<noteq> n - 1 - t' * (2 * h) - h" using ne assms(3,4) by arith
qed

lemma up_step_commute:
  assumes "0 < h" "t \<noteq> t'"
  shows "up_step n d h t (up_step n d h t' g) = up_step n d h t' (up_step n d h t g)"
proof (cases "(t < d \<and> t * (2 * h) + h < n) \<and> (t' < d \<and> t' * (2 * h) + h < n)")
  case True
  note d = sweep_positions_distinct[OF assms, of n] sweep_positions_distinct[OF assms(1) assms(2)[symmetric], of n]
  from True d show ?thesis
    by (simp add: up_step_def list_update_swap)
next
  case False
  then show ?thesis by (auto simp: up_step_def)
qed

lemma down_step_commute:
  assumes "0 < h" "t \<noteq> t'"
  shows "down_step n d h t (down_step n d h t' g) = down_step n d h t' (down_step n d h t g)"
proof (cases "(t < d \<and> t * (2 * h) + h < n) \<and> (t' < d \<and> t' * (2 * h) + h < n)")
  case True
  note d = sweep_positions_distinct[OF assms, of n] sweep_positions_distinct[OF assms(1) assms(2)[symmetric], of n]
  from True d show ?thesis
    by (simp add: down_step_def list_update_swap)
next
  case False
  then show ?thesis by (auto simp: down_step_def)
qed

subsection \<open>The invariants of the two sweeps\<close>

lemma seg_split: "lo \<le> mid \<Longrightarrow> mid \<le> hi \<Longrightarrow> seg xs lo mid + seg xs mid hi = seg xs lo hi"
  unfolding seg_def by (rule sum.atLeastLessThan_concat)

lemma seg_empty: "hi \<le> lo \<Longrightarrow> seg xs lo hi = 0"
  by (simp add: seg_def)

lemma seg_take: "p \<le> length xs \<Longrightarrow> seg xs 0 p = sum_list (take p xs)"
proof -
  assume p: "p \<le> length xs"
  have "sum_list (take p xs) = (\<Sum>i = 0..<length (take p xs). take p xs ! i)"
    by (rule sum_list_sum_nth)
  also have "\<dots> = (\<Sum>i = 0..<p. xs ! i)"
    using p by (intro sum.cong) simp_all
  finally show ?thesis by (simp add: seg_def)
qed

lemma wd_dvd: "2 ^ l dvd r \<Longrightarrow> wd l r = 2 ^ l"
  by (cases l) simp_all

lemma act_full:
  assumes "p < n" "n \<le> d * (2 * h)" "0 < h"
  shows "act n d h n p \<longleftrightarrow> 2 * h dvd (n - 1 - p) \<and> h \<le> p"
proof
  assume "act n d h n p"
  then obtain t where "p + t * (2 * h) + 1 = n" "h \<le> p" by (auto simp: act_def)
  then have "n - 1 - p = t * (2 * h)" by arith
  with \<open>h \<le> p\<close> show "2 * h dvd (n - 1 - p) \<and> h \<le> p" by simp
next
  assume r: "2 * h dvd (n - 1 - p) \<and> h \<le> p"
  then obtain t where t: "n - 1 - p = 2 * h * t" by (auto simp: dvd_def)
  have "n - 1 - p = t * (2 * h)" using t by (simp add: mult.commute)
  then have e: "p + t * (2 * h) + 1 = n" using assms(1) by arith
  have "t * (2 * h) < d * (2 * h)" using e assms(2) by arith
  then have "t < d" by simp
  moreover have "t \<le> t * (2 * h)" using assms(3) by simp
  then have "t < n" using e by arith
  ultimately show "act n d h n p" using e r by (auto simp: act_def)
qed

lemma actb_full:
  assumes "p < n" "n \<le> d * (2 * h)" "0 < h"
  shows "actb n d h n p \<longleftrightarrow> h dvd (n - 1 - p) \<and> \<not> 2 * h dvd (n - 1 - p)"
proof
  assume "actb n d h n p"
  then obtain t where "p + h + t * (2 * h) + 1 = n" by (auto simp: actb_def)
  then have e: "n - 1 - p = t * (2 * h) + h" by arith
  have "h dvd t * (2 * h) + h" by simp
  moreover have "\<not> 2 * h dvd t * (2 * h) + h"
  proof
    assume "2 * h dvd t * (2 * h) + h"
    then obtain q where "t * (2 * h) + h = 2 * h * q" by (auto simp: dvd_def)
    then have "q * (2 * h) = t * (2 * h) + h" by (simp add: mult.commute)
    with odd_multiple[OF assms(3)] show False by blast
  qed
  ultimately show "h dvd (n - 1 - p) \<and> \<not> 2 * h dvd (n - 1 - p)" using e by simp
next
  assume r: "h dvd (n - 1 - p) \<and> \<not> 2 * h dvd (n - 1 - p)"
  then obtain q where q: "n - 1 - p = h * q" by (auto simp: dvd_def)
  have "odd q"
  proof
    assume "even q"
    then obtain q' where "q = 2 * q'" by (auto simp: dvd_def)
    with q have "2 * h dvd (n - 1 - p)" by simp
    with r show False by simp
  qed
  then obtain t where t: "q = 2 * t + 1" by (auto elim: oddE)
  have e0: "n - 1 - p = t * (2 * h) + h" using q t by (simp add: algebra_simps)
  then have e: "p + h + t * (2 * h) + 1 = n" using assms(1) by arith
  have "t * (2 * h) < d * (2 * h)" using e assms(2) by arith
  then have "t < d" by simp
  moreover have "t \<le> t * (2 * h)" using assms(3) by simp
  then have "t < n" using e by arith
  ultimately show "actb n d h n p" using e by (auto simp: actb_def)
qed

lemma up_level:
  assumes inv: "up_inv xs l g" and n: "length xs = n" and d: "n \<le> d * 2 ^ Suc l"
  shows "\<exists>g'. run_threads (upsweep_thread n d (2 ^ Suc l)) (block n) g = Some g' \<and>
              up_inv xs (Suc l) g'"
proof -
  define h :: nat where "h = 2 ^ l"
  have h: "0 < h" by (simp add: h_def)
  have off: "(2::nat) ^ Suc l = 2 * h" by (simp add: h_def)
  from inv n have len: "length g = n"
    and g: "\<And>p. p < n \<Longrightarrow> g ! p = seg xs (p + 1 - wd l (n - 1 - p)) (p + 1)"
    by (simp_all add: up_inv_def)
  define g' where "g' = fold (up_step n d h) (block n) g"
  have run: "run_threads (upsweep_thread n d (2 * h)) (block n) g = Some g'"
    using run_threads_fold[where P = "\<lambda>s. length s = n" and f = "upsweep_thread n d (2 * h)"
        and f' = "up_step n d h" and s = g and ts = "block n"]
      upsweep_thread_pure[OF _ h] len
    by (simp add: g'_def length_up_step)
  from fold_up_step[OF len h, of d n] have len': "length g' = n"
    and g': "\<And>p. p < n \<Longrightarrow> g' ! p = (if act n d h n p then g ! p + g ! (p - h) else g ! p)"
    by (simp_all add: g'_def block_def)
  have "g' ! p = seg xs (p + 1 - wd (Suc l) (n - 1 - p)) (p + 1)" if p: "p < n" for p
  proof (cases "2 * h dvd (n - 1 - p)")
    case True
    then have hd: "2 ^ l dvd (n - 1 - p)" unfolding h_def by (metis dvd_mult_right)
    have w: "wd (Suc l) (n - 1 - p) = 2 * h" using True by (simp add: h_def)
    show ?thesis
    proof (cases "h \<le> p")
      case hp: True
      then have a: "act n d h n p" using act_full[OF p _ h, of d] d True off by simp
      have "2 ^ l dvd (n - 1 - (p - h))"
      proof -
        have "n - 1 - (p - h) = (n - 1 - p) + h" using hp p by arith
        then show ?thesis using hd by (simp add: h_def)
      qed
      then have "g ! (p - h) = seg xs (p - h + 1 - h) (p - h + 1)"
        using g[of "p - h"] p by (simp add: wd_dvd h_def)
      moreover have "g ! p = seg xs (p + 1 - h) (p + 1)"
        using g[OF p] hd by (simp add: wd_dvd h_def)
      moreover have "p - h + 1 - h = p + 1 - 2 * h" "p - h + 1 = p + 1 - h" using hp by arith+
      ultimately have "g ! p + g ! (p - h) = seg xs (p + 1 - 2 * h) (p + 1)"
        using seg_split[of "p + 1 - 2 * h" "p + 1 - h" "p + 1" xs]
        by (simp add: add.commute)
      then show ?thesis using g'[OF p] a w by simp
    next
      case False
      then have a: "\<not> act n d h n p" by (simp add: act_def)
      have "g ! p = seg xs (p + 1 - h) (p + 1)"
        using g[OF p] hd by (simp add: wd_dvd h_def)
      moreover have "p + 1 - h = p + 1 - 2 * h" using False by arith
      ultimately show ?thesis using g'[OF p] a w by simp
    qed
  next
    case False
    then have a: "\<not> act n d h n p" using act_full[OF p _ h, of d] d off by simp
    have "wd (Suc l) (n - 1 - p) = wd l (n - 1 - p)" using False by (simp add: h_def)
    then show ?thesis using g'[OF p] a g[OF p] by simp
  qed
  then have "up_inv xs (Suc l) g'" using len' n by (simp add: up_inv_def)
  with run off show ?thesis by auto
qed

lemma down_level:
  assumes inv: "down_inv xs (Suc l) g" and n: "length xs = n" and d: "n \<le> d * 2 ^ Suc l"
  shows "\<exists>g'. run_threads (downsweep_thread n d (2 ^ Suc l)) (block n) g = Some g' \<and>
              down_inv xs l g'"
proof -
  define h :: nat where "h = 2 ^ l"
  have h: "0 < h" by (simp add: h_def)
  have off: "(2::nat) ^ Suc l = 2 * h" by (simp add: h_def)
  from inv n have len: "length g = n"
    and g: "\<And>p. p < n \<Longrightarrow> g ! p =
        (if 2 * h dvd (n - 1 - p) then seg xs 0 (p + 1 - 2 * h)
         else seg xs (p + 1 - wd (Suc l) (n - 1 - p)) (p + 1))"
    by (simp_all add: down_inv_def h_def)
  define g' where "g' = fold (down_step n d h) (block n) g"
  have run: "run_threads (downsweep_thread n d (2 * h)) (block n) g = Some g'"
    using run_threads_fold[where P = "\<lambda>s. length s = n" and f = "downsweep_thread n d (2 * h)"
        and f' = "down_step n d h" and s = g and ts = "block n"]
      downsweep_thread_pure[OF _ h] len
    by (simp add: g'_def length_down_step)
  from fold_down_step[OF len h, of d n] have len': "length g' = n"
    and g': "\<And>p. p < n \<Longrightarrow> g' ! p = (if act n d h n p then g ! p + g ! (p - h)
                  else if actb n d h n p then g ! (p + h) else g ! p)"
    by (simp_all add: g'_def block_def)
  have dn: "n \<le> d * (2 * h)" using d off by simp
  have "g' ! p = (if h dvd (n - 1 - p) then seg xs 0 (p + 1 - h)
                  else seg xs (p + 1 - wd l (n - 1 - p)) (p + 1))" if p: "p < n" for p
  proof (cases "2 * h dvd (n - 1 - p)")
    case True
    then have hd: "h dvd (n - 1 - p)" by (metis dvd_mult_right)
    have gp: "g ! p = seg xs 0 (p + 1 - 2 * h)" using g[OF p] True by simp
    have nb: "\<not> actb n d h n p" using actb_full[OF p dn h] True by simp
    show ?thesis
    proof (cases "h \<le> p")
      case hp: True
      then have a: "act n d h n p" using act_full[OF p dn h] True by simp
      have rb: "n - 1 - (p - h) = (n - 1 - p) + h" using hp p by arith
      have "h dvd (n - 1 - (p - h))" using hd rb by simp
      moreover have n2: "\<not> 2 * h dvd (n - 1 - (p - h))"
      proof
        assume "2 * h dvd (n - 1 - (p - h))"
        then have "2 * h dvd (n - 1 - p) + h" unfolding rb .
        with True have "2 * h dvd h" using dvd_add_right_iff by blast
        with h show False by (auto dest: dvd_imp_le)
      qed
      ultimately have "wd (Suc l) (n - 1 - (p - h)) = h"
        using wd_dvd[of l "n - 1 - (p - h)"] by (simp add: h_def)
      then have "g ! (p - h) = seg xs (p - h + 1 - h) (p - h + 1)"
        using g[of "p - h"] p n2 by simp
      moreover have "p - h + 1 - h = p + 1 - 2 * h" "p - h + 1 = p + 1 - h" using hp by arith+
      ultimately have "g ! p + g ! (p - h) = seg xs 0 (p + 1 - h)"
        using seg_split[of 0 "p + 1 - 2 * h" "p + 1 - h" xs] gp by simp
      then show ?thesis using g'[OF p] a hd by simp
    next
      case False
      then have a: "\<not> act n d h n p" by (simp add: act_def)
      have "seg xs 0 (p + 1 - 2 * h) = seg xs 0 (p + 1 - h)"
        using False by (simp add: seg_empty)
      then show ?thesis using g'[OF p] a nb gp hd by simp
    qed
  next
    case False
    then have a: "\<not> act n d h n p" using act_full[OF p dn h] by simp
    show ?thesis
    proof (cases "h dvd (n - 1 - p)")
      case True
      then have b: "actb n d h n p" using actb_full[OF p dn h] False by simp
      then obtain t where t: "p + h + t * (2 * h) + 1 = n" by (auto simp: actb_def)
      then have ph: "p + h < n" by arith
      have "n - 1 - (p + h) = t * (2 * h)" using t by arith
      then have "2 * h dvd (n - 1 - (p + h))" by simp
      then have "g ! (p + h) = seg xs 0 (p + h + 1 - 2 * h)" using g[OF ph] by simp
      moreover have "p + h + 1 - 2 * h = p + 1 - h" by arith
      ultimately show ?thesis using g'[OF p] a b True by simp
    next
      case nh: False
      then have b: "\<not> actb n d h n p" using actb_full[OF p dn h] by simp
      have "wd (Suc l) (n - 1 - p) = wd l (n - 1 - p)" using False by (simp add: h_def)
      then show ?thesis using g'[OF p] a b g[OF p] False nh by simp
    qed
  qed
  then have "down_inv xs l g'" using len' n by (simp add: down_inv_def h_def)
  with run off show ?thesis by auto
qed

subsection \<open>The two loops and the whole kernel\<close>

lemma upsweep_loop:
  assumes "up_inv xs l g" "length xs = n" "n \<le> 2 ^ (l + j)"
  shows "\<exists>g'. upsweep (block n) n (2 ^ j div 2) (2 ^ Suc l) g = Some (g', 2 ^ Suc (l + j)) \<and>
              up_inv xs (l + j) g'"
  using assms
proof (induction j arbitrary: l g)
  case 0
  then show ?case by (subst upsweep.simps) simp
next
  case (Suc j)
  have d: "(2::nat) ^ Suc j div 2 = 2 ^ j" by simp
  have "n \<le> 2 ^ j * 2 ^ Suc l" using Suc.prems(3) by (simp add: power_add mult.commute)
  from up_level[OF Suc.prems(1,2) this] obtain g1
    where g1: "run_threads (upsweep_thread n (2 ^ j) (2 ^ Suc l)) (block n) g = Some g1"
      and inv1: "up_inv xs (Suc l) g1" by blast
  have "n \<le> 2 ^ (Suc l + j)" using Suc.prems(3) by simp
  from Suc.IH[OF inv1 Suc.prems(2) this] obtain g'
    where g': "upsweep (block n) n (2 ^ j div 2) (2 ^ Suc (Suc l)) g1 = Some (g', 2 ^ Suc (Suc l + j))"
      and inv': "up_inv xs (Suc l + j) g'" by blast
  have "upsweep (block n) n (2 ^ Suc j div 2) (2 ^ Suc l) g = Some (g', 2 ^ Suc (l + Suc j))"
    unfolding d using g1 g' by (subst upsweep.simps) simp
  with inv' show ?case by simp
qed

lemma downsweep_loop:
  assumes "down_inv xs j g" "length xs = n" "n \<le> 2 ^ k" "j \<le> k"
  shows "\<exists>g'. downsweep (block n) n (2 ^ k) (2 ^ (k - j)) (2 ^ j) g = Some g' \<and>
              down_inv xs 0 g'"
  using assms
proof (induction j arbitrary: g)
  case 0
  have "(0::nat) < 2 ^ k" by simp
  then have "\<not> (2::nat) ^ k \<le> 2 ^ k div 2" by linarith
  with 0 show ?case by (subst downsweep.simps) simp
next
  case (Suc j)
  from Suc.prems(4) obtain k' where k: "k = Suc k'" by (cases k) auto
  have cond: "(0::nat) < 2 ^ (k - Suc j) \<and> (2::nat) ^ (k - Suc j) \<le> 2 ^ k div 2"
    using k by simp
  have "(2::nat) ^ (k - Suc j) * 2 ^ Suc j = 2 ^ k"
    using Suc.prems(4) by (simp add: power_add[symmetric] del: power_Suc)
  then have "n \<le> 2 ^ (k - Suc j) * 2 ^ Suc j" using Suc.prems(3) by simp
  from down_level[OF Suc.prems(1,2) this] obtain g1
    where g1: "run_threads (downsweep_thread n (2 ^ (k - Suc j)) (2 ^ Suc j)) (block n) g = Some g1"
      and inv1: "down_inv xs j g1" by blast
  have "j \<le> k" using Suc.prems(4) by simp
  from Suc.IH[OF inv1 Suc.prems(2,3) this] obtain g'
    where g': "downsweep (block n) n (2 ^ k) (2 ^ (k - j)) (2 ^ j) g1 = Some g'"
      and inv': "down_inv xs 0 g'" by blast
  have d2: "(2::nat) ^ (k - Suc j) * 2 = 2 ^ (k - j)"
    using Suc.prems(4) by (metis Suc_diff_Suc Suc_le_lessD power_Suc2)
  have o2: "(2::nat) ^ Suc j div 2 = 2 ^ j" by simp
  have "downsweep (block n) n (2 ^ k) (2 ^ (k - Suc j)) (2 ^ Suc j) g = Some g'"
    using cond g1 g' by (subst downsweep.simps) (simp only: d2 o2 if_True option.case simp_thms)
  with inv' show ?case by blast
qed

lemma run_threads_copy:
  assumes "m \<le> length gi" "length go = length gi"
  shows "run_threads (copy_thread gi) [0..<m] go = Some (take m gi @ drop m go)"
  using assms(1)
proof (induction m)
  case 0
  then show ?case by simp
next
  case (Suc m)
  then have m: "m < length gi" by simp
  have "(take m gi @ drop m go)[m := gi ! m] = take (Suc m) gi @ drop (Suc m) go"
    using m assms(2)
    by (intro nth_equalityI) (auto simp: nth_append nth_list_update less_Suc_eq)
  then show ?case
    using Suc m assms(2) by (simp add: run_threads_append copy_thread_def)
qed

lemma run_threads_idle:
  assumes "\<And>t. t \<in> set ts \<Longrightarrow> f t s = Some s"
  shows "run_threads f ts s = Some s"
  using assms by (induction ts) auto

lemma run_threads_clear:
  assumes "length g = n"
  shows "run_threads (clear_thread n) (block n) g = Some (if 0 < n then g[n - 1 := 0] else g)"
proof (cases n)
  case 0
  then show ?thesis by (simp add: block_def)
next
  case (Suc n')
  have b: "block n = 0 # [1..<n]" using Suc by (simp add: block_def upt_conv_Cons)
  have idle: "run_threads (clear_thread n) [1..<n] (g[n - 1 := 0]) = Some (g[n - 1 := 0])"
    by (rule run_threads_idle) (simp add: clear_thread_def)
  have "clear_thread n 0 g = Some (g[n - 1 := 0])"
    using Suc assms by (simp add: clear_thread_def)
  then have "run_threads (clear_thread n) (block n) g = Some (g[n - 1 := 0])"
    unfolding b using idle by (simp only: run_threads.simps option.case)
  then show ?thesis using Suc by simp
qed

lemma kernelEfficientScan_sums:
  assumes "length g_idata = n" "length g_odata = n" "n \<le> 2 ^ k"
  shows "\<exists>r. kernelEfficientScan n g_odata g_idata n (2 ^ k) = Some r \<and> length r = n \<and>
             (\<forall>p<n. r ! p = sum_list (take p g_idata))"
proof -
  have c: "run_threads (copy_thread g_idata) (block n) g_odata = Some g_idata"
    using run_threads_copy[of n g_idata g_odata] assms by (simp add: block_def)
  have "up_inv g_idata 0 g_idata" by (simp add: up_inv_def seg_def)
  from upsweep_loop[OF this assms(1), of k] assms(3) obtain g2
    where u: "upsweep (block n) n (2 ^ k div 2) 2 g_idata = Some (g2, 2 ^ Suc k)"
      and inv2: "up_inv g_idata k g2" by auto
  from inv2 assms(1) have len2: "length g2 = n" by (simp add: up_inv_def)
  define g3 where "g3 = (if 0 < n then g2[n - 1 := 0] else g2)"
  have cl: "run_threads (clear_thread n) (block n) g2 = Some g3"
    using run_threads_clear[OF len2] by (simp add: g3_def)
  have "down_inv g_idata k g3"
    unfolding down_inv_def
  proof (intro conjI allI impI)
    show "length g3 = length g_idata" using len2 assms(1) by (simp add: g3_def)
  next
    fix p assume "p < length g_idata"
    then have p: "p < n" using assms(1) by simp
    have r: "n - 1 - p < 2 ^ k" using p assms(3) by arith
    show "g3 ! p = (if 2 ^ k dvd length g_idata - 1 - p then seg g_idata 0 (p + 1 - 2 ^ k)
          else seg g_idata (p + 1 - wd k (length g_idata - 1 - p)) (p + 1))"
    proof (cases "p = n - 1")
      case True
      have "p + 1 - 2 ^ k = 0" using p assms(3) by arith
      then show ?thesis using True p len2 assms(1) by (simp add: g3_def seg_def)
    next
      case False
      then have "0 < n - 1 - p" using p by arith
      with r have "\<not> 2 ^ k dvd n - 1 - p" by (auto dest: dvd_imp_le)
      then show ?thesis using False p inv2 assms(1) by (simp add: g3_def up_inv_def)
    qed
  qed
  from downsweep_loop[OF this assms(1,3), of ] obtain r
    where dn: "downsweep (block n) n (2 ^ k) 1 (2 ^ k) g3 = Some r"
      and inv: "down_inv g_idata 0 r" by auto
  have "kernelEfficientScan n g_odata g_idata n (2 ^ k) = Some r"
    using c u cl dn by (simp add: kernelEfficientScan_def)
  moreover have "length r = n" using inv assms(1) by (simp add: down_inv_def)
  moreover have "r ! p = sum_list (take p g_idata)" if "p < n" for p
    using inv that assms(1) by (simp add: down_inv_def seg_take)
  ultimately show ?thesis by blast
qed

subsection \<open>scan\<close>

lemma ilog2ceil_from_bound: "n \<le> 2 ^ ilog2ceil_from k n"
  by (induction k n rule: ilog2ceil_from.induct) (subst ilog2ceil_from.simps, simp)

lemma ilog2ceil_bound: "n \<le> 2 ^ ilog2ceil n"
  by (simp add: ilog2ceil_def ilog2ceil_from_bound)

lemma cudaMemcpy_all:
  "length dst = n \<Longrightarrow> length src = n \<Longrightarrow> cudaMemcpy dst src n = Some src"
  by (simp add: cudaMemcpy_def)

lemma length_cudaMalloc: "length (cudaMalloc u n) = n"
  by (simp add: cudaMalloc_def)

lemma scan_sums:
  assumes "length idata = n" "length odata = n"
  shows "\<exists>r. scan dev n odata idata = Some r \<and> length r = n \<and>
             (\<forall>i<n. r ! i = sum_list (take i idata))"
proof -
  from kernelEfficientScan_sums[OF assms(1) length_cudaMalloc ilog2ceil_bound, of "dev 1"]
  obtain r where r: "kernelEfficientScan n (cudaMalloc (dev 1) n) idata n (2 ^ ilog2ceil n) = Some r"
    "length r = n" "\<forall>p<n. r ! p = sum_list (take p idata)" by blast
  then have "scan dev n odata idata = Some r"
    using assms by (simp add: scan_def cudaMemcpy_all length_cudaMalloc)
  with r show ?thesis by blast
qed

text \<open>
  \<open>ilog2ceil n\<close> is the least exponent; up to the thread ceiling the padded size stays
  below the ceiling too, so every index the kernels compute is far from the limits of a
  32-bit \<^verbatim>\<open>int\<close>.
\<close>

lemma ilog2ceil_from_least:
  "j \<le> k \<Longrightarrow> n \<le> 2 ^ k \<Longrightarrow> ilog2ceil_from j n \<le> k"
proof (induction j n rule: ilog2ceil_from.induct)
  case (1 j n)
  show ?case
  proof (cases "n \<le> 2 ^ j")
    case True
    then show ?thesis using "1.prems" by (subst ilog2ceil_from.simps) simp
  next
    case False
    have "j \<noteq> k" using False "1.prems"(2) by auto
    then have "Suc j \<le> k" using "1.prems"(1) by simp
    from "1.IH"[OF False this "1.prems"(2)] show ?thesis
      using False by (subst ilog2ceil_from.simps) simp
  qed
qed

lemma ilog2ceil_least: "n \<le> 2 ^ k \<Longrightarrow> ilog2ceil n \<le> k"
  by (simp add: ilog2ceil_def ilog2ceil_from_least)

lemma padded_size_within_ceiling:
  assumes "n \<le> max_threads"
  shows "(2::nat) ^ ilog2ceil n \<le> max_threads"
proof -
  have "n \<le> 2 ^ 10" using assms by (simp add: max_threads_def)
  then have "ilog2ceil n \<le> 10" by (rule ilog2ceil_least)
  then have "(2::nat) ^ ilog2ceil n \<le> 2 ^ 10" by (rule power_increasing) simp
  then show ?thesis by (simp add: max_threads_def)
qed

subsection \<open>Mask, scanned mask and scatter\<close>

lemma sint_of_nat_small: "c < 2 ^ 31 \<Longrightarrow> sint (of_nat c :: 32 word) = int c"
  by (simp add: signed_of_nat signed_take_bit_int_eq_self)

lemma length_mask: "length (mask xs) = length xs"
  by (simp add: mask_def)

lemma nth_mask: "i < length xs \<Longrightarrow> mask xs ! i = (if xs ! i \<noteq> 0 then 1 else 0)"
  by (simp add: mask_def)

lemma take_mask: "take m (mask xs) = mask (take m xs)"
  by (simp add: mask_def take_map)

lemma sum_list_mask: "sum_list (mask xs) = of_nat (length (kept xs))"
  by (induction xs) (simp_all add: mask_def kept_def)

lemma length_kept_le: "length (kept xs) \<le> length xs"
  by (simp add: kept_def)

lemma kept_take_Suc:
  "m < length xs \<Longrightarrow>
   kept (take (Suc m) xs) = (if xs ! m \<noteq> 0 then kept (take m xs) @ [xs ! m] else kept (take m xs))"
  by (simp add: kept_def take_Suc_conv_app_nth)

lemma run_threads_mapToBoolean:
  assumes "m \<le> length idata" "length bools = length idata"
  shows "run_threads (mapToBoolean_thread n idata) [0..<m] bools =
         Some (take m (mask idata) @ drop m bools)"
  using assms(1)
proof (induction m)
  case 0
  then show ?case by simp
next
  case (Suc m)
  then have m: "m < length idata" by simp
  have "(take m (mask idata) @ drop m bools)[m := (if idata ! m \<noteq> 0 then 1 else 0)] =
        take (Suc m) (mask idata) @ drop (Suc m) bools"
    using m assms(2)
    by (intro nth_equalityI)
       (auto simp: nth_append nth_list_update less_Suc_eq length_mask nth_mask)
  then show ?case
    using Suc m assms(2)
    by (simp add: run_threads_append mapToBoolean_thread_def length_mask)
qed

lemma kernMapToBoolean_mask:
  assumes "length idata = n" "length bools = n"
  shows "kernMapToBoolean n n bools idata = Some (mask idata)"
  using run_threads_mapToBoolean[of n idata bools n] assms
  by (simp add: kernMapToBoolean_def block_def length_mask)

lemma run_threads_scatter:
  assumes len: "length idata = n" "length s = n" "length odata = n"
    and s: "\<And>p. p < n \<Longrightarrow> s ! p = of_nat (length (kept (take p idata)))"
    and n: "n < 2 ^ 31"
    and m: "m \<le> n"
  shows "run_threads (scatter_thread n idata (mask idata) s) [0..<m] odata =
         Some (kept (take m idata) @ drop (length (kept (take m idata))) odata)"
  using m
proof (induction m)
  case 0
  then show ?case by (simp add: kept_def)
next
  case (Suc m)
  then have m: "m < n" by simp
  define c where "c = length (kept (take m idata))"
  have "c \<le> length (take m idata)" unfolding c_def by (rule length_kept_le)
  then have cm: "c \<le> m" by simp
  then have c31: "c < 2 ^ 31" and cn: "c < n" using m n by simp_all
  have idx: "sint (s ! m) = int c" using s[OF m] c31 by (simp add: c_def sint_of_nat_small)
  define cur where "cur = kept (take m idata) @ drop c odata"
  have lcur: "length cur = n" using len(3) cn by (simp add: cur_def c_def)
  have st: "scatter_thread n idata (mask idata) s m cur =
            Some (if idata ! m \<noteq> 0 then cur[c := idata ! m] else cur)"
    using m len lcur cn idx by (simp add: scatter_thread_def length_mask nth_mask)
  have D: "drop c odata = odata ! c # drop (Suc c) odata"
    using cn len(3) by (simp add: Cons_nth_drop_Suc)
  have upd: "cur[c := idata ! m] = kept (take m idata) @ [idata ! m] @ drop (Suc c) odata"
    unfolding cur_def D unfolding c_def by simp
  have "(if idata ! m \<noteq> 0 then cur[c := idata ! m] else cur) =
        kept (take (Suc m) idata) @ drop (length (kept (take (Suc m) idata))) odata"
    using m len(1) upd by (simp add: kept_take_Suc cur_def c_def)
  then show ?case
    using Suc m st by (simp add: run_threads_append cur_def c_def)
qed

subsection \<open>compact\<close>

lemma scanned_mask:
  assumes "length idata = n" "length s0 = n" "n \<le> 2 ^ k"
  shows "\<exists>s. kernelEfficientScan n s0 (mask idata) n (2 ^ k) = Some s \<and> length s = n \<and>
             (\<forall>p<n. s ! p = of_nat (length (kept (take p idata))))"
proof -
  have "length (mask idata) = n" using assms(1) by (simp add: length_mask)
  from kernelEfficientScan_sums[OF this assms(2,3)] obtain s
    where s: "kernelEfficientScan n s0 (mask idata) n (2 ^ k) = Some s" "length s = n"
      "\<forall>p<n. s ! p = sum_list (take p (mask idata))" by blast
  then have "\<forall>p<n. s ! p = of_nat (length (kept (take p idata)))"
    by (simp add: take_mask sum_list_mask)
  with s show ?thesis by blast
qed

lemma kernScatter_kept:
  assumes "length idata = n" "length s = n" "length o0 = n" "n < 2 ^ 31"
    and "\<And>p. p < n \<Longrightarrow> s ! p = of_nat (length (kept (take p idata)))"
  shows "kernScatter n n o0 idata (mask idata) s =
         Some (kept idata @ drop (length (kept idata)) o0)"
  using run_threads_scatter[OF assms(1,2,3,5,4), of n] assms(1)
  by (simp add: kernScatter_def block_def)

lemma last_plus_scanned:
  assumes "length idata = n" "1 \<le> n"
  shows "mask idata ! (n - 1) + of_nat (length (kept (take (n - 1) idata))) =
         of_nat (length (kept idata))"
proof -
  have m: "n - 1 < length idata" using assms by simp
  have "kept idata = kept (take (Suc (n - 1)) idata)" using assms by simp
  then show ?thesis
    using m by (simp add: kept_take_Suc nth_mask del: take_Suc)
qed

lemma compact_result:
  assumes "length idata = n" "1 \<le> n" "n < 2 ^ 31" "n \<le> length odata"
  shows "\<exists>s. kernelEfficientScan n (cudaMalloc (dev 3) n) (mask idata) n (2 ^ ilog2ceil n) = Some s \<and>
             int (length (kept idata)) = sint (mask idata ! (n - 1) + s ! (n - 1)) \<and>
             compact dev n odata idata =
               Some (kept idata @ drop (length (kept idata)) odata, int (length (kept idata)))"
proof -
  define c where "c = length (kept idata)"
  have cn: "c \<le> n" using length_kept_le[of idata] assms(1) by (simp add: c_def)
  then have c31: "c < 2 ^ 31" using assms(3) by simp
  have mc: "cudaMemcpy (cudaMalloc (dev 0) n) idata n = Some idata"
    using assms(1) by (simp add: cudaMemcpy_all length_cudaMalloc)
  have mb: "kernMapToBoolean n n (cudaMalloc (dev 2) n) idata = Some (mask idata)"
    using assms(1) by (simp add: kernMapToBoolean_mask length_cudaMalloc)
  from scanned_mask[OF assms(1) length_cudaMalloc ilog2ceil_bound, of "dev 3"] obtain s
    where s: "kernelEfficientScan n (cudaMalloc (dev 3) n) (mask idata) n (2 ^ ilog2ceil n) = Some s"
      "length s = n" "\<And>p. p < n \<Longrightarrow> s ! p = of_nat (length (kept (take p idata)))" by blast
  define g where "g = kept idata @ drop c (cudaMalloc (dev 1) n)"
  have sc: "kernScatter n n (cudaMalloc (dev 1) n) idata (mask idata) s = Some g"
    using kernScatter_kept[OF assms(1) s(2) length_cudaMalloc assms(3) s(3)]
    by (simp add: g_def c_def)
  have lg: "length g = n" using cn by (simp add: g_def c_def length_cudaMalloc)
  have cnt: "mask idata ! (n - 1) + s ! (n - 1) = of_nat c"
    using last_plus_scanned[OF assms(1,2)] s(3)[of "n - 1"] assms(2) by (simp add: c_def)
  then have scnt: "sint (mask idata ! (n - 1) + s ! (n - 1)) = int c"
    using c31 by (simp add: sint_of_nat_small)
  have cp: "cudaMemcpy odata g c = Some (kept idata @ drop c odata)"
    using cn lg assms(4) by (simp add: cudaMemcpy_def g_def c_def)
  have "compact dev n odata idata = Some (kept idata @ drop c odata, int c)"
    using mc mb s(1,2) sc assms(1,2) scnt cp
    by (simp add: compact_def Let_def length_mask)
  with s(1) scnt show ?thesis unfolding c_def by auto
qed

subsection \<open>Sums of 32-bit values without overflow\<close>

lemma word_of_int_sum_sint: "word_of_int (sum_list (map sint xs)) = (sum_list xs :: 32 word)"
  by (induction xs) simp_all

lemma sint_sum_list_exact:
  assumes "- (2 ^ 31) \<le> sum_list (map sint xs)" "sum_list (map sint xs) < 2 ^ 31"
  shows "sint (sum_list xs :: 32 word) = sum_list (map sint xs)"
proof -
  have "sint (sum_list xs :: 32 word) = sint (word_of_int (sum_list (map sint xs)) :: 32 word)"
    by (simp only: word_of_int_sum_sint)
  also have "\<dots> = signed_take_bit 31 (sum_list (map sint xs))"
    by (simp add: sint_sbintrunc')
  also have "\<dots> = sum_list (map sint xs)"
    using assms by (simp add: signed_take_bit_int_eq_self)
  finally show ?thesis .
qed

subsection \<open>Bounds on \<open>n\<close>\<close>

lemma ceiling_int: "n \<le> max_threads \<Longrightarrow> n < 2 ^ 31"
  by (simp add: max_threads_def)

subsection \<open>No access out of range in the sweeps\<close>

lemma sweep_a_less: "sweep_a n index offset < int n"
proof -
  have "0 \<le> int index * int offset" by simp
  then show ?thesis unfolding sweep_a_def by linarith
qed

lemma sweep_b_le: "sweep_b a offset \<le> a"
  by (simp add: sweep_b_def)

lemma upsweep_thread_safe:
  assumes "length g = n"
  shows "\<exists>g'. upsweep_thread n d offset index g = Some g' \<and> length g' = n"
proof -
  have "sweep_b (sweep_a n index offset) offset < int n"
    using sweep_a_less[of n index offset] sweep_b_le[of "sweep_a n index offset" offset] by linarith
  then show ?thesis
    using assms sweep_a_less[of n index offset]
    by (auto simp: upsweep_thread_def Let_def)
qed

lemma downsweep_thread_safe:
  assumes "length g = n"
  shows "\<exists>g'. downsweep_thread n d offset index g = Some g' \<and> length g' = n"
proof -
  have "sweep_b (sweep_a n index offset) offset < int n"
    using sweep_a_less[of n index offset] sweep_b_le[of "sweep_a n index offset" offset] by linarith
  then show ?thesis
    using assms sweep_a_less[of n index offset]
    by (auto simp: downsweep_thread_def Let_def)
qed

lemma run_threads_safe:
  assumes "\<And>t s. P s \<Longrightarrow> \<exists>s'. f t s = Some s' \<and> P s'" and "P s"
  shows "\<exists>s'. run_threads f ts s = Some s' \<and> P s'"
  using assms(2)
proof (induction ts arbitrary: s)
  case Nil
  then show ?case by simp
next
  case (Cons t ts)
  from assms(1)[OF Cons.prems, of t] obtain s1 where "f t s = Some s1" "P s1" by blast
  with Cons.IH[of s1] show ?case by simp
qed

lemma upsweep_safe:
  "length g = n \<Longrightarrow> \<exists>g' off. upsweep ts n d offset g = Some (g', off) \<and> length g' = n"
proof (induction ts n d offset g rule: upsweep.induct)
  case (1 ts n d offset g)
  show ?case
  proof (cases "d \<ge> 1")
    case True
    from run_threads_safe[where P = "\<lambda>s. length s = n" and f = "upsweep_thread n d offset"
        and s = g and ts = ts] upsweep_thread_safe "1.prems"
    obtain g1 where g1: "run_threads (upsweep_thread n d offset) ts g = Some g1" "length g1 = n"
      by blast
    from "1.IH"[OF True g1] obtain g' off
      where "upsweep ts n (d div 2) (offset * 2) g1 = Some (g', off)" "length g' = n" by blast
    then show ?thesis using True g1 by (subst upsweep.simps) simp
  next
    case False
    then show ?thesis using "1.prems" by (subst upsweep.simps) simp
  qed
qed

lemma downsweep_safe:
  "length g = n \<Longrightarrow> \<exists>g'. downsweep ts n N d offset g = Some g' \<and> length g' = n"
proof (induction ts n N d offset g rule: downsweep.induct)
  case (1 ts n N d offset g)
  show ?case
  proof (cases "0 < d \<and> d \<le> N div 2")
    case True
    from run_threads_safe[where P = "\<lambda>s. length s = n" and f = "downsweep_thread n d offset"
        and s = g and ts = ts] downsweep_thread_safe "1.prems"
    obtain g1 where g1: "run_threads (downsweep_thread n d offset) ts g = Some g1" "length g1 = n"
      by blast
    from "1.IH"[OF True g1] obtain g'
      where "downsweep ts n N (d * 2) (offset div 2) g1 = Some g'" "length g' = n" by blast
    then show ?thesis using True g1 by (subst downsweep.simps) simp
  next
    case False
    then have "downsweep ts n N d offset g = Some g" by (subst downsweep.simps) auto
    then show ?thesis using "1.prems" by simp
  qed
qed

subsection \<open>Positions of the kept elements\<close>

lemma kept_split: "x \<noteq> 0 \<Longrightarrow> kept (xs @ x # ys) = kept xs @ x # kept ys"
  by (simp add: kept_def)

lemma kept_take_less:
  assumes "i < j" "j \<le> length xs" "xs ! i \<noteq> 0"
  shows "length (kept (take i xs)) < length (kept (take j xs))"
proof -
  have i: "i < length (take j xs)" using assms by simp
  have "take j xs = take i (take j xs) @ take j xs ! i # drop (Suc i) (take j xs)"
    using i by (rule id_take_nth_drop)
  also have "\<dots> = take i xs @ xs ! i # drop (Suc i) (take j xs)"
    using assms by (simp add: min_def)
  finally have "kept (take j xs) = kept (take i xs @ xs ! i # drop (Suc i) (take j xs))"
    by (rule arg_cong)
  then show ?thesis using assms(3) by (simp add: kept_split)
qed

lemma kept_nth_count:
  assumes "i < length xs" "xs ! i \<noteq> 0"
  shows "length (kept (take i xs)) < length (kept xs)"
    and "kept xs ! length (kept (take i xs)) = xs ! i"
proof -
  have "xs = take i xs @ xs ! i # drop (Suc i) xs" using assms(1) by (rule id_take_nth_drop)
  then have "kept xs = kept (take i xs @ xs ! i # drop (Suc i) xs)"
    by (rule arg_cong)
  then have "kept xs = kept (take i xs) @ xs ! i # kept (drop (Suc i) xs)"
    using assms(2) by (simp add: kept_split)
  then show "length (kept (take i xs)) < length (kept xs)"
    and "kept xs ! length (kept (take i xs)) = xs ! i" by simp_all
qed

subsection \<open>The result of compact\<close>

lemma compact_value:
  assumes "length idata = n" "1 \<le> n" "n < 2 ^ 31" "n \<le> length odata"
  shows "compact dev n odata idata =
           Some (kept idata @ drop (length (kept idata)) odata, int (length (kept idata)))"
  using compact_result[OF assms, of dev] by blast

subsection \<open>The fused kernel, phase by phase\<close>

lemma run_threads_lift:
  assumes step: "\<And>t s. rest s = c \<Longrightarrow> F t s = map_option (put s) (f t (get s))"
    and gp: "\<And>s g. get (put s g) = g"
    and pg: "\<And>s. put s (get s) = s"
    and pp: "\<And>s g g'. put (put s g) g' = put s g'"
    and ip: "\<And>s g. rest (put s g) = rest s"
    and c: "rest s0 = c"
  shows "run_threads F ts s0 = map_option (put s0) (run_threads f ts (get s0))"
  using c
proof (induction ts arbitrary: s0)
  case Nil
  show ?case by (simp add: pg)
next
  case (Cons t ts)
  show ?case
  proof (cases "f t (get s0)")
    case None
    then show ?thesis using step[OF Cons.prems, of t] by simp
  next
    case (Some g)
    then have F: "F t s0 = Some (put s0 g)" using step[OF Cons.prems, of t] by simp
    have "rest (put s0 g) = c" using Cons.prems ip by simp
    from Cons.IH[OF this] show ?thesis using F Some by (simp add: gp pp)
  qed
qed

lemma flag_phase:
  "run_threads c_flag_thread ts st =
   map_option (\<lambda>b. st\<lparr>c_bdata := b\<rparr>)
     (run_threads (mapToBoolean_thread n (c_idata st)) ts (c_bdata st))"
  by (rule run_threads_lift[where rest = c_idata and c = "c_idata st" and get = c_bdata])
     (auto simp: c_flag_thread_def mapToBoolean_thread_def)

lemma copy_phase:
  "run_threads c_copy_thread ts st =
   map_option (\<lambda>g. st\<lparr>c_sdata := g\<rparr>)
     (run_threads (copy_thread (c_bdata st)) ts (c_sdata st))"
  by (rule run_threads_lift[where rest = c_bdata and c = "c_bdata st" and get = c_sdata])
     (auto simp: c_copy_thread_def copy_thread_def)

lemma upsweep_level_phase:
  "run_threads (c_upsweep_thread n d offset) ts st =
   map_option (\<lambda>g. st\<lparr>c_sdata := g\<rparr>)
     (run_threads (upsweep_thread n d offset) ts (c_sdata st))"
  by (rule run_threads_lift[where rest = "\<lambda>s. ()" and c = "()" and get = c_sdata])
     (auto simp: c_upsweep_thread_def upsweep_thread_def Let_def)

lemma downsweep_level_phase:
  "run_threads (c_downsweep_thread n d offset) ts st =
   map_option (\<lambda>g. st\<lparr>c_sdata := g\<rparr>)
     (run_threads (downsweep_thread n d offset) ts (c_sdata st))"
  by (rule run_threads_lift[where rest = "\<lambda>s. ()" and c = "()" and get = c_sdata])
     (auto simp: c_downsweep_thread_def downsweep_thread_def Let_def)

lemma clear_phase:
  "run_threads (c_clear_thread n) ts st =
   map_option (\<lambda>g. st\<lparr>c_sdata := g\<rparr>)
     (run_threads (clear_thread n) ts (c_sdata st))"
  by (rule run_threads_lift[where rest = "\<lambda>s. ()" and c = "()" and get = c_sdata])
     (auto simp: c_clear_thread_def clear_thread_def)

lemma scatter_phase:
  "run_threads c_scatter_thread ts st =
   map_option (\<lambda>g. st\<lparr>c_odata := g\<rparr>)
     (run_threads (scatter_thread n (c_idata st) (c_bdata st) (c_sdata st)) ts (c_odata st))"
  by (rule run_threads_lift[where rest = "\<lambda>s. (c_idata s, c_bdata s, c_sdata s)"
        and c = "(c_idata st, c_bdata st, c_sdata st)" and get = c_odata])
     (auto simp: c_scatter_thread_def scatter_thread_def Let_def)

lemma c_upsweep_phase:
  "c_upsweep ts n d offset st =
   map_option (\<lambda>(g, off). (st\<lparr>c_sdata := g\<rparr>, off)) (upsweep ts n d offset (c_sdata st))"
proof (induction ts n d offset st rule: c_upsweep.induct)
  case (1 ts n d offset st)
  show ?case
  proof (cases "d \<ge> 1")
    case True
    show ?thesis
    proof (cases "run_threads (upsweep_thread n d offset) ts (c_sdata st)")
      case None
      then show ?thesis
        using True
        by (subst c_upsweep.simps, subst upsweep.simps) (simp add: upsweep_level_phase)
    next
      case (Some g)
      then have r: "run_threads (c_upsweep_thread n d offset) ts st = Some (st\<lparr>c_sdata := g\<rparr>)"
        by (simp add: upsweep_level_phase)
      from "1.IH"[OF True r] show ?thesis
        using True Some r
        by (subst c_upsweep.simps, subst upsweep.simps) simp
    qed
  next
    case False
    then show ?thesis by (subst c_upsweep.simps, subst upsweep.simps) simp
  qed
qed

lemma c_downsweep_phase:
  "c_downsweep ts n N d offset st =
   map_option (\<lambda>g. st\<lparr>c_sdata := g\<rparr>) (downsweep ts n N d offset (c_sdata st))"
proof (induction ts n N d offset st rule: c_downsweep.induct)
  case (1 ts n N d offset st)
  show ?case
  proof (cases "0 < d \<and> d \<le> N div 2")
    case True
    show ?thesis
    proof (cases "run_threads (downsweep_thread n d offset) ts (c_sdata st)")
      case None
      then show ?thesis
        using True
        by (subst c_downsweep.simps, subst downsweep.simps) (simp add: downsweep_level_phase)
    next
      case (Some g)
      then have r: "run_threads (c_downsweep_thread n d offset) ts st = Some (st\<lparr>c_sdata := g\<rparr>)"
        by (simp add: downsweep_level_phase)
      from "1.IH"[OF True r] show ?thesis
        using True Some r
        by (subst c_downsweep.simps, subst downsweep.simps) simp
    qed
  next
    case False
    then have "c_downsweep ts n N d offset st = Some st"
      by (subst c_downsweep.simps) auto
    moreover from False have "downsweep ts n N d offset (c_sdata st) = Some (c_sdata st)"
      by (subst downsweep.simps) auto
    ultimately show ?thesis by simp
  qed
qed

lemma kernelEfficientCompact_phases:
  "kernelEfficientCompact blockDim st n N =
     (case kernMapToBoolean blockDim n (c_bdata st) (c_idata st) of
        None \<Rightarrow> None
      | Some b \<Rightarrow>
     (case kernelEfficientScan blockDim (c_sdata st) b n N of
        None \<Rightarrow> None
      | Some s \<Rightarrow>
     (case kernScatter blockDim n (c_odata st) (c_idata st) b s of
        None \<Rightarrow> None
      | Some out \<Rightarrow> Some (st\<lparr>c_odata := out, c_sdata := s, c_bdata := b\<rparr>))))"
  unfolding kernelEfficientCompact_def kernMapToBoolean_def kernelEfficientScan_def kernScatter_def
  by (auto simp: flag_phase[of _ _ n] copy_phase c_upsweep_phase clear_phase c_downsweep_phase
        scatter_phase[of _ _ n] split: option.splits)

subsection \<open>The levels the kernel reaches\<close>

text \<open>
  The loops are the runs of their bodies over \<open>upsweep_levels\<close> and
  \<open>downsweep_levels\<close>. With \<open>N = 2 ^ ilog2ceil n\<close> every pair of either list has
  \<open>d * offset = N\<close>, and the up-sweep ends with \<open>offset = 2 * N\<close>: up to the thread
  ceiling no product \<open>index * offset\<close> and no \<open>offset\<close> comes near \<open>2 ^ 31\<close>, so the
  numbers of the model are the 32-bit \<^verbatim>\<open>int\<close>s of the code.
\<close>

lemma upsweep_run_levels:
  "map_option fst (upsweep ts n d offset g) =
   run_levels (upsweep_thread n) ts (upsweep_levels d offset) g"
proof (induction ts n d offset g rule: upsweep.induct)
  case (1 ts n d offset g)
  show ?case
  proof (cases "d \<ge> 1")
    case True
    show ?thesis
    proof (cases "run_threads (upsweep_thread n d offset) ts g")
      case None
      then show ?thesis using True
        by (subst upsweep.simps, subst upsweep_levels.simps) simp
    next
      case (Some g1)
      from "1.IH"[OF True Some] show ?thesis using True Some
        by (subst upsweep.simps, subst upsweep_levels.simps) simp
    qed
  next
    case False
    then show ?thesis by (subst upsweep.simps, subst upsweep_levels.simps) simp
  qed
qed

lemma downsweep_run_levels:
  "downsweep ts n N d offset g =
   run_levels (downsweep_thread n) ts (downsweep_levels N d offset) g"
proof (induction ts n N d offset g rule: downsweep.induct)
  case (1 ts n N d offset g)
  show ?case
  proof (cases "0 < d \<and> d \<le> N div 2")
    case True
    show ?thesis
    proof (cases "run_threads (downsweep_thread n d offset) ts g")
      case None
      then show ?thesis using True
        by (subst downsweep.simps, subst downsweep_levels.simps) simp
    next
      case (Some g1)
      from "1.IH"[OF True Some] show ?thesis using True Some
        by (subst downsweep.simps, subst downsweep_levels.simps) simp
    qed
  next
    case False
    then have "downsweep ts n N d offset g = Some g" by (subst downsweep.simps) auto
    moreover from False have "downsweep_levels N d offset = []"
      by (subst downsweep_levels.simps) auto
    ultimately show ?thesis by simp
  qed
qed

lemma upsweep_levels_product:
  "(d, off) \<in> set (upsweep_levels (2 ^ j div 2) offset) \<Longrightarrow> 2 * (d * off) = 2 ^ j * offset"
proof (induction j arbitrary: offset)
  case 0
  then show ?case by (subst (asm) upsweep_levels.simps) simp
next
  case (Suc j)
  have d: "(2::nat) ^ Suc j div 2 = 2 ^ j" by simp
  from Suc.prems have "(d, off) = (2 ^ j, offset) \<or>
      (d, off) \<in> set (upsweep_levels (2 ^ j div 2) (offset * 2))"
    unfolding d by (subst (asm) upsweep_levels.simps) (simp split: if_splits)
  then show ?case
  proof
    assume "(d, off) = (2 ^ j, offset)"
    then show ?thesis by simp
  next
    assume "(d, off) \<in> set (upsweep_levels (2 ^ j div 2) (offset * 2))"
    from Suc.IH[OF this] show ?thesis by simp
  qed
qed

lemma downsweep_levels_product:
  "j \<le> k \<Longrightarrow> (d, off) \<in> set (downsweep_levels (2 ^ k) (2 ^ (k - j)) (2 ^ j)) \<Longrightarrow>
   d * off = 2 ^ k"
proof (induction j)
  case 0
  have "(0::nat) < 2 ^ k" by simp
  then have "\<not> (2::nat) ^ k \<le> 2 ^ k div 2" by linarith
  with 0 show ?case by (subst (asm) downsweep_levels.simps) simp
next
  case (Suc j)
  have p: "(2::nat) ^ (k - Suc j) * 2 ^ Suc j = 2 ^ k"
    using Suc.prems(1) by (simp add: power_add[symmetric] del: power_Suc)
  have d2: "(2::nat) ^ (k - Suc j) * 2 = 2 ^ (k - j)"
    using Suc.prems(1) by (metis Suc_diff_Suc Suc_le_lessD power_Suc2)
  have o2: "(2::nat) ^ Suc j div 2 = 2 ^ j" by simp
  from Suc.prems(2) have "(d, off) = (2 ^ (k - Suc j), 2 ^ Suc j) \<or>
      (d, off) \<in> set (downsweep_levels (2 ^ k) (2 ^ (k - j)) (2 ^ j))"
    by (subst (asm) downsweep_levels.simps) (simp only: d2 o2 split: if_splits, auto)
  then show ?case
  proof
    assume "(d, off) = (2 ^ (k - Suc j), 2 ^ Suc j)"
    then show ?thesis using p by simp
  next
    assume "(d, off) \<in> set (downsweep_levels (2 ^ k) (2 ^ (k - j)) (2 ^ j))"
    with Suc.IH Suc.prems(1) show ?thesis by simp
  qed
qed

lemma upsweep_final_offset:
  "upsweep ts n (2 ^ j div 2) offset g = Some (g', off) \<Longrightarrow> off = offset * 2 ^ j"
proof (induction j arbitrary: offset g)
  case 0
  then show ?case by (subst (asm) upsweep.simps) simp
next
  case (Suc j)
  have d: "(2::nat) ^ Suc j div 2 = 2 ^ j" by simp
  from Suc.prems obtain g1 where
    "upsweep ts n (2 ^ j div 2) (offset * 2) g1 = Some (g', off)"
    unfolding d by (subst (asm) upsweep.simps) (auto split: option.splits if_splits)
  from Suc.IH[OF this] show ?case by simp
qed

lemma sweep_levels_reached:
  assumes "n \<le> max_threads" "N = 2 ^ ilog2ceil n"
    and "(d, off) \<in> set (upsweep_levels (N div 2) 2 @ downsweep_levels N 1 N)"
  shows "d * off = N" and "N \<le> max_threads"
proof -
  show N: "N \<le> max_threads" using assms(1,2) padded_size_within_ceiling by simp
  from assms(3) consider "(d, off) \<in> set (upsweep_levels (2 ^ ilog2ceil n div 2) 2)"
    | "(d, off) \<in> set (downsweep_levels (2 ^ ilog2ceil n) (2 ^ (ilog2ceil n - ilog2ceil n))
         (2 ^ ilog2ceil n))"
    unfolding assms(2) by auto
  then show "d * off = N"
  proof cases
    case 1
    from upsweep_levels_product[OF this] show ?thesis using assms(2) by simp
  next
    case 2
    from downsweep_levels_product[OF _ this] show ?thesis using assms(2) by simp
  qed
qed

section \<open>The claims\<close>

text \<open>
  C1. For every \<open>n\<close> from 0 up to the thread ceiling and every input of length \<open>n\<close>,
  \<^verbatim>\<open>scan\<close> returns a sequence of length \<open>n\<close> whose element 0 is 0 and whose element
  \<open>i\<close> is the sum of \<open>input[0..i)\<close>, for every \<open>i < n\<close>. The sum is the one of the
  program's \<^verbatim>\<open>int\<close> (32 bits, wrapping around); where the sum of the signed values
  fits into 32 bits, the element read as a signed number is that sum.
\<close>

theorem scan_exclusive_prefix_sums:
  assumes "n \<le> max_threads" "length idata = n" "length odata = n"
  shows "\<exists>r. scan dev n odata idata = Some r \<and> length r = n \<and>
             (0 < n \<longrightarrow> r ! 0 = 0) \<and>
             (\<forall>i<n. r ! i = sum_list (take i idata)) \<and>
             (\<forall>i<n. - (2 ^ 31) \<le> sum_list (map sint (take i idata)) \<and>
                     sum_list (map sint (take i idata)) < 2 ^ 31 \<longrightarrow>
                     sint (r ! i) = sum_list (map sint (take i idata)))"
proof -
  from scan_sums[OF assms(2,3), of dev] obtain r
    where r: "scan dev n odata idata = Some r" "length r = n"
      "\<forall>i<n. r ! i = sum_list (take i idata)" by blast
  have "0 < n \<longrightarrow> r ! 0 = 0" using r(3) by auto
  moreover have "\<forall>i<n. - (2 ^ 31) \<le> sum_list (map sint (take i idata)) \<and>
                     sum_list (map sint (take i idata)) < 2 ^ 31 \<longrightarrow>
                     sint (r ! i) = sum_list (map sint (take i idata))"
    using r(3) sint_sum_list_exact by auto
  ultimately show ?thesis using r by blast
qed

theorem scan_exclusive_prefix_sums_witness:
  "(3::nat) \<le> max_threads \<and> length [4, 2, 1 :: val] = 3 \<and> length [9, 9, 9 :: val] = 3 \<and>
   scan (\<lambda>b i. 7) 3 [9, 9, 9] [4, 2, 1] = Some [0, 4, 6] \<and>
   sint ([0, 4, 6 :: val] ! 2) = sum_list (map sint (take 2 [4, 2, 1 :: val]))"
proof -
  from scan_exclusive_prefix_sums[of 3 "[4, 2, 1]" "[9, 9, 9]" "\<lambda>b i. 7"]
  obtain r where r: "scan (\<lambda>b i. 7) 3 [9, 9, 9] [4, 2, 1] = Some r" "length r = 3"
    "\<forall>i<3. r ! i = sum_list (take i [4, 2, 1])"
    by (auto simp: max_threads_def)
  have "r ! 0 = 0" "r ! 1 = 4" "r ! 2 = 6" using r(3) by (simp_all add: eval_nat_numeral)
  then have "r = [0, 4, 6]" using r(2)
    by (intro nth_equalityI) (auto simp: less_Suc_eq eval_nat_numeral)
  with r(1) show ?thesis by (simp add: max_threads_def eval_nat_numeral)
qed

text \<open>
  C2. For every \<open>n\<close> from 1 up to the thread ceiling and every input of length \<open>n\<close>,
  \<^verbatim>\<open>compact\<close> returns as count the number of non-zero elements of the input, the first
  count entries of the output are the non-zero elements of the input in their order, and
  the count is \<open>mask[n-1] + scannedMask[n-1]\<close>, where the mask is what
  \<^verbatim>\<open>kernMapToBoolean\<close> leaves in \<open>g_bdata\<close> and the scanned mask is what
  \<^verbatim>\<open>kernelEfficientScan\<close> leaves in \<open>g_sdata\<close>.
\<close>

theorem compact_keeps_nonzero_in_order:
  assumes "1 \<le> n" "n \<le> max_threads" "length idata = n" "length odata = n"
  shows "\<exists>out count b s.
           compact dev n odata idata = Some (out, count) \<and>
           count = int (length (filter (\<lambda>x. x \<noteq> 0) idata)) \<and>
           take (nat count) out = filter (\<lambda>x. x \<noteq> 0) idata \<and>
           kernMapToBoolean n n (cudaMalloc (dev 2) n) idata = Some b \<and>
           kernelEfficientScan n (cudaMalloc (dev 3) n) b n (2 ^ ilog2ceil n) = Some s \<and>
           count = sint (b ! (n - 1) + s ! (n - 1))"
proof -
  have n31: "n < 2 ^ 31" using assms(2) by (rule ceiling_int)
  have le: "n \<le> length odata" using assms(4) by simp
  from compact_result[OF assms(3,1) n31 le, of dev] obtain s
    where s: "kernelEfficientScan n (cudaMalloc (dev 3) n) (mask idata) n (2 ^ ilog2ceil n) = Some s"
      and c: "int (length (kept idata)) = sint (mask idata ! (n - 1) + s ! (n - 1))"
      and r: "compact dev n odata idata =
               Some (kept idata @ drop (length (kept idata)) odata, int (length (kept idata)))"
    by blast
  have b: "kernMapToBoolean n n (cudaMalloc (dev 2) n) idata = Some (mask idata)"
    using assms(3) by (simp add: kernMapToBoolean_mask length_cudaMalloc)
  have "take (nat (int (length (kept idata)))) (kept idata @ drop (length (kept idata)) odata) =
        kept idata" by simp
  with r s c b show ?thesis unfolding kept_def by blast
qed

theorem compact_keeps_nonzero_in_order_witness:
  "(1::nat) \<le> 4 \<and> (4::nat) \<le> max_threads \<and> length [0, 7, 0, 2 :: val] = 4 \<and>
   length [9, 9, 9, 9 :: val] = 4 \<and>
   (\<exists>out count. compact (\<lambda>b i. 5) 4 [9, 9, 9, 9] [0, 7, 0, 2] = Some (out, count) \<and>
      count = 2 \<and> take 2 out = [7, 2])"
proof -
  have h: "(1::nat) \<le> 4" "(4::nat) \<le> max_threads" "length [0, 7, 0, 2 :: val] = 4"
    "length [9, 9, 9, 9 :: val] = 4" by (simp_all add: max_threads_def)
  from compact_keeps_nonzero_in_order[OF h, of "\<lambda>b i. 5"] obtain out count
    where "compact (\<lambda>b i. 5) 4 [9, 9, 9, 9] [0, 7, 0, 2] = Some (out, count)"
      "count = int (length (filter (\<lambda>x. x \<noteq> 0) [0, 7, 0, 2 :: val]))"
      "take (nat count) out = filter (\<lambda>x. x \<noteq> 0) [0, 7, 0, 2 :: val]" by blast
  then have "compact (\<lambda>b i. 5) 4 [9, 9, 9, 9] [0, 7, 0, 2] = Some (out, count) \<and>
      count = 2 \<and> take 2 out = [7, 2]" by simp
  with h show ?thesis by blast
qed

text \<open>
  C3. On the input \<open>[1,0,0,3,0,1]\<close> with \<open>n = 6\<close>, \<^verbatim>\<open>scan\<close> returns
  \<open>[0,1,1,1,4,4]\<close>, and \<^verbatim>\<open>compact\<close> returns the count 3 with \<open>[1,3,1]\<close> as the
  first three entries of the output (the other three keep what the caller's array held),
  whatever the fresh device buffers contain.
\<close>

theorem scenario_A:
  "scan dev 6 [o0, o1, o2, o3, o4, o5] [1, 0, 0, 3, 0, 1] = Some [0, 1, 1, 1, 4, 4] \<and>
   compact dev 6 [o0, o1, o2, o3, o4, o5] [1, 0, 0, 3, 0, 1] = Some ([1, 3, 1, o3, o4, o5], 3)"
  by code_simp

text \<open>
  C4. For every \<open>n\<close> from 1 up to the thread ceiling, a power of two or not, with
  \<open>N = 2 ^ ilog2ceil n\<close>: at every level \<open>(d, offset)\<close> that the up-sweep or the
  down-sweep reaches and for every thread \<open>index < d\<close> of the block, the product
  \<open>index * offset\<close> stays below \<open>2 ^ 31\<close>, the indices \<open>a = n-1-index*offset\<close> and
  \<open>b = a-offset/2\<close> that pass the guard \<open>a \<ge> 0\<close> and \<open>b \<ge> 0\<close> are below \<open>n\<close>, and
  the step of the thread reads and writes within a buffer of length \<open>n\<close>; so do the
  two loops, run from the values the kernel gives them, and the whole kernel.
\<close>

theorem sweep_accesses_in_range:
  assumes "1 \<le> n" "n \<le> max_threads" "length g = n" "N = 2 ^ ilog2ceil n"
  shows "(\<forall>(d, offset) \<in> set (upsweep_levels (N div 2) 2 @ downsweep_levels N 1 N).
           \<forall>index<n. index < d \<longrightarrow>
             index * offset < 2 ^ 31 \<and>
             (0 \<le> sweep_a n index offset \<and> 0 \<le> sweep_b (sweep_a n index offset) offset \<longrightarrow>
                sweep_a n index offset < int n \<and>
                sweep_b (sweep_a n index offset) offset < int n) \<and>
             (\<exists>g'. upsweep_thread n d offset index g = Some g' \<and> length g' = n) \<and>
             (\<exists>g'. downsweep_thread n d offset index g = Some g' \<and> length g' = n)) \<and>
         2 * N < 2 ^ 31 \<and>
         (\<exists>g'. upsweep (block n) n (N div 2) 2 g = Some (g', 2 * N) \<and> length g' = n) \<and>
         (\<exists>g'. downsweep (block n) n N 1 N g = Some g' \<and> length g' = n) \<and>
         (\<forall>g_odata. length g_odata = n \<longrightarrow>
            (\<exists>r. kernelEfficientScan n g_odata g n N = Some r \<and> length r = n))"
proof -
  have Nm: "N \<le> max_threads" using assms(2,4) padded_size_within_ceiling by simp
  then have N31: "2 * N < 2 ^ 31" by (simp add: max_threads_def)
  have lev: "index * offset < 2 ^ 31 \<and>
             (0 \<le> sweep_a n index offset \<and> 0 \<le> sweep_b (sweep_a n index offset) offset \<longrightarrow>
                sweep_a n index offset < int n \<and>
                sweep_b (sweep_a n index offset) offset < int n) \<and>
             (\<exists>g'. upsweep_thread n d offset index g = Some g' \<and> length g' = n) \<and>
             (\<exists>g'. downsweep_thread n d offset index g = Some g' \<and> length g' = n)"
    if m: "(d, offset) \<in> set (upsweep_levels (N div 2) 2 @ downsweep_levels N 1 N)"
      and i: "index < d" for d offset index
  proof -
    from sweep_levels_reached(1)[OF assms(2,4) m] have p: "d * offset = N" .
    have "index * offset \<le> d * offset" using i by (simp add: mult_le_mono1)
    then have "index * offset < 2 ^ 31" using p N31 by simp
    moreover have "sweep_a n index offset < int n \<and>
                   sweep_b (sweep_a n index offset) offset < int n"
      using sweep_a_less[of n index offset] sweep_b_le[of "sweep_a n index offset" offset]
      by linarith
    ultimately show ?thesis
      using upsweep_thread_safe[OF assms(3)] downsweep_thread_safe[OF assms(3)] by blast
  qed
  from upsweep_safe[OF assms(3), of "block n" "N div 2" 2] obtain g1 off
    where u: "upsweep (block n) n (N div 2) 2 g = Some (g1, off)" "length g1 = n" by blast
  from upsweep_final_offset[of "block n" n "ilog2ceil n" 2 g g1 off] u(1) assms(4)
  have "off = 2 * N" by simp
  with u have up: "\<exists>g'. upsweep (block n) n (N div 2) 2 g = Some (g', 2 * N) \<and> length g' = n"
    by blast
  have dn: "\<exists>g'. downsweep (block n) n N 1 N g = Some g' \<and> length g' = n"
    by (rule downsweep_safe[OF assms(3)])
  have k: "\<exists>r. kernelEfficientScan n g_odata g n N = Some r \<and> length r = n"
    if "length g_odata = n" for g_odata
    using kernelEfficientScan_sums[OF assms(3) that ilog2ceil_bound] assms(4) by blast
  from lev N31 up dn k show ?thesis by blast
qed

theorem sweep_accesses_in_range_witness:
  "(1::nat) \<le> 5 \<and> (5::nat) \<le> max_threads \<and> length [3, 1, 4, 1, 5 :: val] = 5 \<and>
   (8::nat) = 2 ^ ilog2ceil 5 \<and>
   (4, 2) \<in> set (upsweep_levels (8 div 2) 2 @ downsweep_levels 8 1 8) \<and>
   (1::nat) < 5 \<and> (1::nat) < 4 \<and> (1::nat) * 2 < 2 ^ 31 \<and>
   0 \<le> sweep_a 5 1 2 \<and> 0 \<le> sweep_b (sweep_a 5 1 2) 2 \<and>
   sweep_a 5 1 2 < 5 \<and> sweep_b (sweep_a 5 1 2) 2 < 5 \<and>
   (\<exists>g'. upsweep (block 5) 5 (8 div 2) 2 [3, 1, 4, 1, 5] = Some (g', 2 * 8) \<and> length g' = 5) \<and>
   (\<exists>g'. downsweep (block 5) 5 8 1 8 [3, 1, 4, 1, 5] = Some g' \<and> length g' = 5) \<and>
   (\<exists>r. kernelEfficientScan 5 [7, 7, 7, 7, 7] [3, 1, 4, 1, 5] 5 8 = Some r \<and> length r = 5)"
proof -
  have h: "(1::nat) \<le> 5" "(5::nat) \<le> max_threads" "length [3, 1, 4, 1, 5 :: val] = 5"
    by (simp_all add: max_threads_def)
  have N: "(8::nat) = 2 ^ ilog2ceil 5" by code_simp
  have m: "(4, 2) \<in> set (upsweep_levels (8 div 2) 2 @ downsweep_levels 8 1 8)" by code_simp
  note w = sweep_accesses_in_range[OF h N]
  have g: "0 \<le> sweep_a 5 1 2 \<and> 0 \<le> sweep_b (sweep_a 5 1 2) 2"
    by (simp add: sweep_a_def sweep_b_def)
  have i: "(1::nat) < 5" "(1::nat) < 4" by simp_all
  from w m i g have "sweep_a 5 1 2 < 5 \<and> sweep_b (sweep_a 5 1 2) 2 < 5" by fastforce
  moreover from w have
    "\<exists>g'. upsweep (block 5) 5 (8 div 2) 2 [3, 1, 4, 1, 5] = Some (g', 2 * 8) \<and> length g' = 5"
    by blast
  moreover from w have
    "\<exists>g'. downsweep (block 5) 5 8 1 8 [3, 1, 4, 1, 5] = Some g' \<and> length g' = 5"
    by blast
  moreover from w have
    "\<exists>r. kernelEfficientScan 5 [7, 7, 7, 7, 7] [3, 1, 4, 1, 5] 5 8 = Some r \<and> length r = 5"
    by simp
  ultimately show ?thesis using h N m g by simp
qed

text \<open>
  C5. For every \<open>n\<close> from 1 up to the thread ceiling and every input of length \<open>n\<close>,
  with the mask left by \<^verbatim>\<open>kernMapToBoolean\<close> and the scanned mask left by
  \<^verbatim>\<open>kernelEfficientScan\<close> on that mask: two different indices whose mask is 1 have different scanned-mask
  values, and for each \<open>i\<close> whose mask is 1 the output buffer holds \<open>input[i]\<close> at
  position \<open>scannedMask[i]\<close> after the scatter.
\<close>

theorem scatter_destinations_disjoint:
  assumes "1 \<le> n" "n \<le> max_threads" "length idata = n"
  shows "\<exists>b s out.
           kernMapToBoolean n n (cudaMalloc (dev 2) n) idata = Some b \<and>
           kernelEfficientScan n (cudaMalloc (dev 3) n) b n (2 ^ ilog2ceil n) = Some s \<and>
           kernScatter n n (cudaMalloc (dev 1) n) idata b s = Some out \<and>
           (\<forall>i<n. b ! i = (if idata ! i \<noteq> 0 then 1 else 0)) \<and>
           (\<forall>i<n. \<forall>j<n. i \<noteq> j \<and> b ! i = 1 \<and> b ! j = 1 \<longrightarrow> s ! i \<noteq> s ! j) \<and>
           (\<forall>i<n. b ! i = 1 \<longrightarrow>
                  0 \<le> sint (s ! i) \<and> nat (sint (s ! i)) < n \<and>
                  out ! nat (sint (s ! i)) = idata ! i)"
proof -
  have n31: "n < 2 ^ 31" using assms(2) by (rule ceiling_int)
  define c where "c = (\<lambda>i. length (kept (take i idata)))"
  have b: "kernMapToBoolean n n (cudaMalloc (dev 2) n) idata = Some (mask idata)"
    using assms(3) by (simp add: kernMapToBoolean_mask length_cudaMalloc)
  from scanned_mask[OF assms(3) length_cudaMalloc ilog2ceil_bound, of "dev 3"] obtain s
    where s: "kernelEfficientScan n (cudaMalloc (dev 3) n) (mask idata) n (2 ^ ilog2ceil n) = Some s"
      "length s = n" "\<And>p. p < n \<Longrightarrow> s ! p = of_nat (c p)" unfolding c_def by blast
  define out where "out = kept idata @ drop (length (kept idata)) (cudaMalloc (dev 1) n)"
  have sc: "kernScatter n n (cudaMalloc (dev 1) n) idata (mask idata) s = Some out"
    using kernScatter_kept[OF assms(3) s(2) length_cudaMalloc n31] s(3)
    by (simp add: out_def c_def)
  have cle: "c i \<le> n" if "i < n" for i
    using length_kept_le[of "take i idata"] that assms(3) by (simp add: c_def)
  have si: "sint (s ! i) = int (c i)" if "i < n" for i
    using s(3)[OF that] cle[OF that] n31 by (simp add: sint_of_nat_small)
  have m: "\<forall>i<n. mask idata ! i = (if idata ! i \<noteq> 0 then 1 else 0)"
    using assms(3) by (simp add: nth_mask)
  have nz: "idata ! i \<noteq> 0" if "i < n" "mask idata ! i = 1" for i
    using that m by (auto split: if_splits)
  have dis: "s ! i \<noteq> s ! j"
    if ij: "i < n" "j < n" "i \<noteq> j" "mask idata ! i = 1" "mask idata ! j = 1" for i j
  proof -
    have "c i \<noteq> c j"
    proof (cases "i < j")
      case True
      then show ?thesis
        using kept_take_less[of i j idata] nz[OF ij(1,4)] ij(2) assms(3) by (simp add: c_def)
    next
      case False
      then have "j < i" using ij(3) by simp
      then show ?thesis
        using kept_take_less[of j i idata] nz[OF ij(2,5)] ij(1) assms(3) by (simp add: c_def)
    qed
    then have "sint (s ! i) \<noteq> sint (s ! j)" using si ij(1,2) by simp
    then show ?thesis by auto
  qed
  have wr: "0 \<le> sint (s ! i) \<and> nat (sint (s ! i)) < n \<and> out ! nat (sint (s ! i)) = idata ! i"
    if i: "i < n" "mask idata ! i = 1" for i
  proof -
    from kept_nth_count[of i idata] nz[OF i] i(1) assms(3)
    have lt: "c i < length (kept idata)" and v: "kept idata ! c i = idata ! i"
      by (simp_all add: c_def)
    have "length (kept idata) \<le> n" using length_kept_le[of idata] assms(3) by simp
    with lt have "c i < n" by simp
    moreover have "out ! c i = idata ! i" using lt v by (simp add: out_def nth_append)
    ultimately show ?thesis using si[OF i(1)] by simp
  qed
  show ?thesis using b s(1) sc m dis wr by blast
qed

theorem scatter_destinations_disjoint_witness:
  "(1::nat) \<le> 3 \<and> (3::nat) \<le> max_threads \<and> length [5, 0, 8 :: val] = 3 \<and>
   (\<exists>b s out.
      kernMapToBoolean 3 3 (cudaMalloc (\<lambda>i. 7) 3) [5, 0, 8] = Some b \<and>
      kernelEfficientScan 3 (cudaMalloc (\<lambda>i. 7) 3) b 3 (2 ^ ilog2ceil 3) = Some s \<and>
      kernScatter 3 3 (cudaMalloc (\<lambda>i. 7) 3) [5, 0, 8] b s = Some out \<and>
      b ! 0 = 1 \<and> b ! 2 = 1 \<and> s ! 0 \<noteq> s ! 2 \<and>
      out ! nat (sint (s ! 0)) = 5 \<and> out ! nat (sint (s ! 2)) = 8)"
proof -
  have h: "(1::nat) \<le> 3" "(3::nat) \<le> max_threads" "length [5, 0, 8 :: val] = 3"
    by (simp_all add: max_threads_def)
  from scatter_destinations_disjoint[OF h, of "\<lambda>k i. 7"] obtain b s out
    where k: "kernMapToBoolean 3 3 (cudaMalloc (\<lambda>i. 7) 3) [5, 0, 8] = Some b"
      "kernelEfficientScan 3 (cudaMalloc (\<lambda>i. 7) 3) b 3 (2 ^ ilog2ceil 3) = Some s"
      "kernScatter 3 3 (cudaMalloc (\<lambda>i. 7) 3) [5, 0, 8] b s = Some out"
      and m: "\<forall>i<3. b ! i = (if [5, 0, 8 :: val] ! i \<noteq> 0 then 1 else 0)"
      and d: "\<forall>i<3. \<forall>j<3. i \<noteq> j \<and> b ! i = 1 \<and> b ! j = 1 \<longrightarrow> s ! i \<noteq> s ! j"
      and w: "\<forall>i<3. b ! i = 1 \<longrightarrow> 0 \<le> sint (s ! i) \<and> nat (sint (s ! i)) < 3 \<and>
                  out ! nat (sint (s ! i)) = [5, 0, 8 :: val] ! i"
    by blast
  have b0: "b ! 0 = 1" and b2: "b ! 2 = 1" using m by simp_all
  have "s ! 0 \<noteq> s ! 2" using d b0 b2 by simp
  moreover have "out ! nat (sint (s ! 0)) = 5" using w b0 by fastforce
  moreover have "out ! nat (sint (s ! 2)) = 8" using w b2 by fastforce
  ultimately show ?thesis using h k b0 b2 by blast
qed

text \<open>
  C6. For every \<open>n\<close> from 1 up to the thread ceiling and every input of length \<open>n\<close>
  without a zero, \<^verbatim>\<open>compact\<close> returns the input itself as output, with count \<open>n\<close>.
\<close>

theorem compact_without_zeros_is_identity:
  assumes "1 \<le> n" "n \<le> max_threads" "length idata = n" "length odata = n"
    and "\<forall>x\<in>set idata. x \<noteq> 0"
  shows "compact dev n odata idata = Some (idata, int n)"
proof -
  have n31: "n < 2 ^ 31" using assms(2) by (rule ceiling_int)
  have le: "n \<le> length odata" using assms(4) by simp
  have k: "kept idata = idata" using assms(5) by (simp add: kept_def)
  from compact_value[OF assms(3,1) n31 le, of dev]
  show ?thesis using assms(3,4) by (simp add: k)
qed

theorem compact_without_zeros_is_identity_witness:
  "(1::nat) \<le> 3 \<and> (3::nat) \<le> max_threads \<and> length [4, 2, 6 :: val] = 3 \<and>
   length [9, 9, 9 :: val] = 3 \<and> (0::val) \<notin> set [4, 2, 6] \<and>
   compact (\<lambda>b i. 7) 3 [9, 9, 9] [4, 2, 6] = Some ([4, 2, 6], 3)"
proof -
  have h: "(1::nat) \<le> 3" "(3::nat) \<le> max_threads" "length [4, 2, 6 :: val] = 3"
    "length [9, 9, 9 :: val] = 3" "\<forall>x\<in>set [4, 2, 6 :: val]. x \<noteq> 0"
    by (simp_all add: max_threads_def)
  from compact_without_zeros_is_identity[OF h, of "\<lambda>b i. 7"] h show ?thesis by simp
qed

text \<open>
  C7. For every \<open>n\<close> from 1 up to the thread ceiling, \<^verbatim>\<open>compact\<close> on \<open>n\<close> zeros
  returns count 0 (and leaves the caller's output array as it was).
\<close>

theorem compact_all_zeros_count:
  assumes "1 \<le> n" "n \<le> max_threads" "length odata = n"
  shows "compact dev n odata (replicate n 0) = Some (odata, 0)"
proof -
  have n31: "n < 2 ^ 31" using assms(2) by (rule ceiling_int)
  have le: "n \<le> length odata" using assms(3) by simp
  have k: "kept (replicate n 0) = []" by (simp add: kept_def)
  have l: "length (replicate n (0::val)) = n" by simp
  from compact_value[OF l assms(1) n31 le, of dev]
  show ?thesis by (simp add: k)
qed

theorem compact_all_zeros_count_witness:
  "(1::nat) \<le> 3 \<and> (3::nat) \<le> max_threads \<and> length [9, 8, 7 :: val] = 3 \<and>
   compact (\<lambda>b i. 5) 3 [9, 8, 7] [0, 0, 0] = Some ([9, 8, 7], 0)"
proof -
  have h: "(1::nat) \<le> 3" "(3::nat) \<le> max_threads" "length [9, 8, 7 :: val] = 3"
    by (simp_all add: max_threads_def)
  have "replicate 3 (0::val) = [0, 0, 0]" by (simp add: eval_nat_numeral)
  with compact_all_zeros_count[OF h, of "\<lambda>b i. 5"] h show ?thesis by simp
qed

text \<open>
  C8. For every \<open>n\<close> from 1 up to the thread ceiling and every input of length \<open>n\<close>,
  the count that \<^verbatim>\<open>compact\<close> returns is not negative and not greater than \<open>n\<close>.
\<close>

theorem compact_count_bounds:
  assumes "1 \<le> n" "n \<le> max_threads" "length idata = n" "length odata = n"
  shows "\<exists>out count. compact dev n odata idata = Some (out, count) \<and>
                      0 \<le> count \<and> count \<le> int n"
proof -
  have n31: "n < 2 ^ 31" using assms(2) by (rule ceiling_int)
  have le: "n \<le> length odata" using assms(4) by simp
  have "length (kept idata) \<le> n" using length_kept_le[of idata] assms(3) by simp
  with compact_value[OF assms(3,1) n31 le, of dev] show ?thesis by auto
qed

theorem compact_count_bounds_witness:
  "(1::nat) \<le> 4 \<and> (4::nat) \<le> max_threads \<and> length [0, 7, 0, 2 :: val] = 4 \<and>
   length [9, 9, 9, 9 :: val] = 4 \<and>
   (\<exists>out count. compact (\<lambda>b i. 5) 4 [9, 9, 9, 9] [0, 7, 0, 2] = Some (out, count) \<and>
      0 \<le> count \<and> count \<le> 4)"
proof -
  have h: "(1::nat) \<le> 4" "(4::nat) \<le> max_threads" "length [0, 7, 0, 2 :: val] = 4"
    "length [9, 9, 9, 9 :: val] = 4" by (simp_all add: max_threads_def)
  from compact_count_bounds[OF h, of "\<lambda>b i. 5"] h show ?thesis by simp
qed

text \<open>
  C9. For every \<open>n\<close> from 1 up to the thread ceiling, every input of length \<open>n\<close> and
  any contents of the three other buffers, \<^verbatim>\<open>kernelEfficientCompact\<close> ends with the mask, the
  scanned mask and the output that \<^verbatim>\<open>kernMapToBoolean\<close>, then \<^verbatim>\<open>kernelEfficientScan\<close> on
  the mask, then \<^verbatim>\<open>kernScatter\<close> produce from the same buffers, and all four kernels
  run without an access out of range.
\<close>

theorem fused_kernel_matches_three_kernels:
  assumes "1 \<le> n" "n \<le> max_threads" "length idata = n"
    and "length o0 = n" "length s0 = n" "length b0 = n"
  shows "\<exists>b s out.
           kernMapToBoolean n n b0 idata = Some b \<and>
           kernelEfficientScan n s0 b n (2 ^ ilog2ceil n) = Some s \<and>
           kernScatter n n o0 idata b s = Some out \<and>
           kernelEfficientCompact n
             \<lparr>c_odata = o0, c_idata = idata, c_sdata = s0, c_bdata = b0\<rparr> n (2 ^ ilog2ceil n) =
             Some \<lparr>c_odata = out, c_idata = idata, c_sdata = s, c_bdata = b\<rparr>"
proof -
  have n31: "n < 2 ^ 31" using assms(2) by (rule ceiling_int)
  have b: "kernMapToBoolean n n b0 idata = Some (mask idata)"
    using assms(3,6) by (rule kernMapToBoolean_mask)
  from scanned_mask[OF assms(3,5) ilog2ceil_bound] obtain s
    where s: "kernelEfficientScan n s0 (mask idata) n (2 ^ ilog2ceil n) = Some s"
      "length s = n" "\<And>p. p < n \<Longrightarrow> s ! p = of_nat (length (kept (take p idata)))" by blast
  have sc: "kernScatter n n o0 idata (mask idata) s =
            Some (kept idata @ drop (length (kept idata)) o0)"
    using kernScatter_kept[OF assms(3) s(2) assms(4) n31] s(3) by simp
  have "kernelEfficientCompact n
          \<lparr>c_odata = o0, c_idata = idata, c_sdata = s0, c_bdata = b0\<rparr> n (2 ^ ilog2ceil n) =
        Some \<lparr>c_odata = kept idata @ drop (length (kept idata)) o0, c_idata = idata,
              c_sdata = s, c_bdata = mask idata\<rparr>"
    by (simp add: kernelEfficientCompact_phases b s(1) sc)
  with b s(1) sc show ?thesis by blast
qed

theorem fused_kernel_matches_three_kernels_witness:
  "(1::nat) \<le> 3 \<and> (3::nat) \<le> max_threads \<and> length [5, 0, 8 :: val] = 3 \<and>
   length [7, 7, 7 :: val] = 3 \<and>
   (\<exists>b s out.
      kernMapToBoolean 3 3 [7, 7, 7] [5, 0, 8] = Some b \<and>
      kernelEfficientScan 3 [7, 7, 7] b 3 (2 ^ ilog2ceil 3) = Some s \<and>
      kernScatter 3 3 [7, 7, 7] [5, 0, 8] b s = Some out \<and>
      kernelEfficientCompact 3
        \<lparr>c_odata = [7, 7, 7], c_idata = [5, 0, 8], c_sdata = [7, 7, 7], c_bdata = [7, 7, 7]\<rparr>
        3 (2 ^ ilog2ceil 3) =
        Some \<lparr>c_odata = out, c_idata = [5, 0, 8], c_sdata = s, c_bdata = b\<rparr>)"
proof -
  have h: "(1::nat) \<le> 3" "(3::nat) \<le> max_threads" "length [5, 0, 8 :: val] = 3"
    "length [7, 7, 7 :: val] = 3" by (simp_all add: max_threads_def)
  from fused_kernel_matches_three_kernels[OF h(1,2,3) h(4) h(4) h(4)] h show ?thesis by blast
qed

text \<open>
  C10. For every \<open>n\<close> from 1 up to the thread ceiling, every input of length \<open>n\<close> and
  every caller's array \<open>odata\<close> of at least \<open>n\<close> elements, \<^verbatim>\<open>compact\<close> returns a count and
  leaves every position of \<open>odata\<close> from the count on as it was before the call.
\<close>

theorem compact_frame:
  assumes "1 \<le> n" "n \<le> max_threads" "length idata = n" "n \<le> length odata"
  shows "\<exists>out count. compact dev n odata idata = Some (out, count) \<and>
           0 \<le> count \<and> length out = length odata \<and>
           (\<forall>i. nat count \<le> i \<and> i < length odata \<longrightarrow> out ! i = odata ! i)"
proof -
  have n31: "n < 2 ^ 31" using assms(2) by (rule ceiling_int)
  define c where "c = length (kept idata)"
  have cn: "c \<le> n" using length_kept_le[of idata] assms(3) by (simp add: c_def)
  from compact_value[OF assms(3,1) n31 assms(4), of dev]
  have r: "compact dev n odata idata = Some (kept idata @ drop c odata, int c)"
    by (simp add: c_def)
  have "length (kept idata @ drop c odata) = length odata"
    using cn assms(4) by (simp add: c_def)
  moreover have "(kept idata @ drop c odata) ! i = odata ! i" if "c \<le> i" "i < length odata" for i
    using that by (simp add: nth_append c_def)
  ultimately show ?thesis using r by auto
qed

theorem compact_frame_witness:
  "(1::nat) \<le> 4 \<and> (4::nat) \<le> max_threads \<and> length [0, 7, 0, 2 :: val] = 4 \<and>
   (4::nat) \<le> length [9, 8, 6, 5 :: val] \<and>
   (\<exists>out. compact (\<lambda>b i. 3) 4 [9, 8, 6, 5] [0, 7, 0, 2] = Some (out, 2) \<and>
      out ! 2 = 6 \<and> out ! 3 = 5)"
proof -
  have h: "(1::nat) \<le> 4" "(4::nat) \<le> max_threads" "length [0, 7, 0, 2 :: val] = 4"
    "(4::nat) \<le> length [9, 8, 6, 5 :: val]" by (simp_all add: max_threads_def)
  from compact_frame[OF h, of "\<lambda>b i. 3"] obtain out count
    where c: "compact (\<lambda>b i. 3) 4 [9, 8, 6, 5] [0, 7, 0, 2] = Some (out, count)"
      and f: "\<forall>i. nat count \<le> i \<and> i < length [9, 8, 6, 5 :: val] \<longrightarrow>
                out ! i = [9, 8, 6, 5 :: val] ! i" by blast
  have e: "compact (\<lambda>b i. 3) 4 [9, 8, 6, 5] [0, 7, 0, 2] = Some ([7, 2, 6, 5], 2)"
    by code_simp
  with c have "count = 2" by simp
  with f have "out ! 2 = 6" "out ! 3 = 5" by simp_all
  with c \<open>count = 2\<close> h show ?thesis by blast
qed

end
